theory Spec2Isabelle
  imports Main "HOL-Library.Word" "HOL-Library.Multiset"
begin

unbundle bit_operations_syntax

section \<open>tinyBLAS (llamafile sgemm): a shallow embedding\<close>

text \<open>
  The development follows \<^verbatim>\<open>ggml/src/ggml-cpu/llamafile/sgemm.cpp\<close>.  Sizes, strides and job
  numbers are \<^verbatim>\<open>int64_t\<close> in the source; they are modelled as mathematical integers, which
  agrees with the source as long as no product of sizes leaves the 64-bit range.  All
  divisions of the source have non-negative operands under the entry point's assertions
  (\<^verbatim>\<open>m, n, k \<ge> 0\<close>, \<^verbatim>\<open>0 \<le> ith < nth\<close>), where C's truncating division is \<open>div\<close>.

  Everything that stops a call other than a return is a value of type \<open>error\<close>:
  a failed \<^verbatim>\<open>GGML_ASSERT\<close>, a division by zero, and a loop that does not end.
\<close>

datatype error = Assert_failed | Division_by_zero | Nontermination

definition bind_err :: "error + 'a \<Rightarrow> ('a \<Rightarrow> error + 'b) \<Rightarrow> error + 'b" where
  "bind_err x f = (case x of Inl e \<Rightarrow> Inl e | Inr a \<Rightarrow> f a)"

subsection \<open>Strided loops\<close>

text \<open>
  \<^verbatim>\<open>for (; i < stop; i += step) s = body(i, s);\<close> with the final value of \<open>i\<close>.  The source's
  strides are template constants; a stride that is not positive makes the loop run forever,
  which is the value \<open>None\<close> here and the error \<open>Nontermination\<close> in \<open>loop\<close>.
\<close>

partial_function (option) for_loop ::
  "int \<Rightarrow> int \<Rightarrow> int \<Rightarrow> (int \<Rightarrow> 's \<Rightarrow> 's) \<Rightarrow> 's \<Rightarrow> (int \<times> 's) option" where
  "for_loop i stop step body s =
     (if i < stop then for_loop (i + step) stop step body (body i s) else Some (i, s))"

declare for_loop.simps [code]

definition loop :: "int \<Rightarrow> int \<Rightarrow> int \<Rightarrow> (int \<Rightarrow> 's \<Rightarrow> 's) \<Rightarrow> 's \<Rightarrow> error + (int \<times> 's)" where
  "loop i stop step body s =
     (case for_loop i stop step body s of None \<Rightarrow> Inl Nontermination | Some r \<Rightarrow> Inr r)"

subsection \<open>Floating-point engine: block sizes and the prologue of gemm\<close>

text \<open>\<^verbatim>\<open>BLOCK_SIZE<M>(m)\<close>; the remainder \<^verbatim>\<open>m % NB_BLOC_M\<close> traps when \<^verbatim>\<open>m = 0\<close>.\<close>

definition BLOCK_SIZE :: "int \<Rightarrow> int \<Rightarrow> error + int" where
  "BLOCK_SIZE M m =
     (let NB_BLOC_M = (m + M - 1) div M in
      if NB_BLOC_M = 0 then Inl Division_by_zero
      else Inr (if m mod NB_BLOC_M = 0 then m div NB_BLOC_M else m div NB_BLOC_M + 1))"

definition BLOC_POS :: "int \<Rightarrow> int \<Rightarrow> int \<Rightarrow> int" where
  "BLOC_POS ib ibN bloc_size =
     (if ib < ibN then ib * bloc_size else ibN * bloc_size + (ib - ibN) * (bloc_size - 1))"

text \<open>The constants that \<^verbatim>\<open>tinyBLAS::gemm<RM, RN, BM>(m, n, BN)\<close> computes before its job loop.\<close>

record gemm_consts =
  RM :: int
  RN :: int
  BM :: int
  ytiles :: int
  xtiles :: int
  jj_RN :: int
  NB_BN :: int
  SIZE_BN :: int
  jj_BN :: int
  nb_job :: int

definition gemm_NB_BN :: "int \<Rightarrow> int \<Rightarrow> int" where
  "gemm_NB_BN xt BN = (if xt < BN then 1 else (xt + BN div 2) div BN)"

definition gemm_SIZE_BN :: "int \<Rightarrow> int \<Rightarrow> int" where
  "gemm_SIZE_BN xt NB = (if xt mod NB = 0 then xt div NB else xt div NB + 1)"

definition gemm_jj_BN :: "int \<Rightarrow> int \<Rightarrow> int \<Rightarrow> int" where
  "gemm_jj_BN xt NB SZ = NB - (NB * SZ - xt)"

text \<open>
  The prologue of \<^verbatim>\<open>gemm\<close>, up to the barrier: the assertion on \<open>m\<close>, the constants, and the
  assertion that thread 0 checks.  Thread 0 also stores \<open>nth\<close> in the pool's chunk counter
  there; the pool model below starts from that state.
\<close>

definition tinyBLAS_gemm ::
  "int \<Rightarrow> int \<Rightarrow> int \<Rightarrow> int \<Rightarrow> int \<Rightarrow> int \<Rightarrow> int \<Rightarrow> error + gemm_consts" where
  "tinyBLAS_gemm rm rn bm ith m n BN =
     (if m mod (rm * bm) \<noteq> 0 then Inl Assert_failed
      else
        let yt = m div (rm * bm);
            xt = (n + rn - 1) div rn;
            jrn = xt - (xt * rn - n) in
        if \<not> xt < BN \<and> BN = 0 then Inl Division_by_zero
        else
          let NB = gemm_NB_BN xt BN in
          if NB = 0 then Inl Division_by_zero
          else
            let SZ = gemm_SIZE_BN xt NB;
                jbn = gemm_jj_BN xt NB SZ in
            if ith = 0 \<and> jbn * SZ + (NB - jbn) * (SZ - 1) \<noteq> xt then Inl Assert_failed
            else Inr \<lparr>RM = rm, RN = rn, BM = bm, ytiles = yt, xtiles = xt, jj_RN = jrn,
                      NB_BN = NB, SIZE_BN = SZ, jj_BN = jbn, nb_job = yt * NB\<rparr>)"

text \<open>
  \<^verbatim>\<open>tinyBLAS::mnpack<RM, RN, BM>\<close>: the compile-time descent on \<open>RN\<close> until it equals
  \<open>SIZE_N\<close>; at \<open>RN = 1\<close> without a match the source asserts.
\<close>

function tinyBLAS_mnpack ::
  "int \<Rightarrow> int \<Rightarrow> int \<Rightarrow> int \<Rightarrow> int \<Rightarrow> int \<Rightarrow> int \<Rightarrow> int \<Rightarrow> error + gemm_consts" where
  "tinyBLAS_mnpack rm rn bm ith m n SIZE_N BN =
     (if SIZE_N = rn then tinyBLAS_gemm rm rn bm ith m n BN
      else if rn > 1 then tinyBLAS_mnpack rm (rn - 1) bm ith m n SIZE_N BN
      else Inl Assert_failed)"
  by pat_completeness auto
termination
  by (relation "measure (\<lambda>(rm, rn, bm, ith, m, n, SIZE_N, BN). nat rn)") auto

declare tinyBLAS_mnpack.simps [simp del]

text \<open>
  \<^verbatim>\<open>tinyBLAS::matmul(m, n)\<close> for one worker, up to the barrier that opens the job loop.
  \<open>Inr None\<close> is \<^verbatim>\<open>return false\<close>; \<open>Inr (Some gc)\<close> is the path that runs the job loop of
  \<^verbatim>\<open>gemm\<close> with the constants \<open>gc\<close> and then reaches \<^verbatim>\<open>return true\<close>.  \<open>vr32\<close> is
  \<^verbatim>\<open>VECTOR_REGISTERS == 32\<close>, \<open>KN\<close> the template's lane count; \<open>nthreads\<close> is \<^verbatim>\<open>params->nth\<close>.
\<close>

definition tinyBLAS_matmul ::
  "bool \<Rightarrow> int \<Rightarrow> int \<Rightarrow> int \<Rightarrow> int \<Rightarrow> int \<Rightarrow> int \<Rightarrow> error + gemm_consts option" where
  "tinyBLAS_matmul vr32 KN k ith nthreads m n =
     (if k mod KN \<noteq> 0 then Inr None
      else if vr32 then
        (if m mod 16 = 0 \<and> m div 16 \<ge> nthreads then
           bind_err (BLOCK_SIZE 6 n) (\<lambda>SIZE_N.
           bind_err (tinyBLAS_mnpack 4 6 4 ith m n SIZE_N 12) (\<lambda>gc. Inr (Some gc)))
         else if m mod 8 = 0 then
           bind_err (BLOCK_SIZE 6 n) (\<lambda>SIZE_N.
           bind_err (tinyBLAS_mnpack 4 6 2 ith m n SIZE_N 12) (\<lambda>gc. Inr (Some gc)))
         else if m mod 4 = 0 then
           bind_err (BLOCK_SIZE 6 n) (\<lambda>SIZE_N.
           bind_err (tinyBLAS_mnpack 4 6 1 ith m n SIZE_N 12) (\<lambda>gc. Inr (Some gc)))
         else Inr None)
      else
        (if m mod 16 = 0 \<and> m div 16 \<ge> nthreads then
           bind_err (BLOCK_SIZE 3 n) (\<lambda>SIZE_N.
           bind_err (tinyBLAS_mnpack 4 3 4 ith m n SIZE_N 24) (\<lambda>gc. Inr (Some gc)))
         else if m mod 8 = 0 then
           bind_err (BLOCK_SIZE 3 n) (\<lambda>SIZE_N.
           bind_err (tinyBLAS_mnpack 4 3 2 ith m n SIZE_N 24) (\<lambda>gc. Inr (Some gc)))
         else if m mod 4 = 0 then
           bind_err (BLOCK_SIZE 3 n) (\<lambda>SIZE_N.
           bind_err (tinyBLAS_mnpack 4 3 1 ith m n SIZE_N 24) (\<lambda>gc. Inr (Some gc)))
         else Inr None))"


subsection \<open>Floating-point engine: the inner block and one job\<close>

text \<open>
  The vector vocabulary of the engine, kept abstract: \<open>'v\<close> is the vector type \<^verbatim>\<open>V\<close>, \<open>'d\<close>
  the accumulator type \<^verbatim>\<open>D\<close>, \<open>'f\<close> the output scalar.  \<open>vload_A off\<close> is
  \<^verbatim>\<open>load<V>(A + off)\<close>, \<open>vload_B off\<close> is \<^verbatim>\<open>load<V>(B + off)\<close>, \<open>vmadd\<close> is \<^verbatim>\<open>madd\<close>, \<open>vhsum\<close> is
  \<^verbatim>\<open>hsum\<close> and \<open>vzero\<close> the value of a zero-initialised accumulator.
\<close>

record ('v, 'd, 'f) vec_ops =
  vload_A :: "int \<Rightarrow> 'v"
  vload_B :: "int \<Rightarrow> 'v"
  vmadd :: "'v \<Rightarrow> 'v \<Rightarrow> 'd \<Rightarrow> 'd"
  vhsum :: "'d \<Rightarrow> 'f"
  vzero :: "'d"

type_synonym cell = "int \<times> int"

text \<open>
  A write \<^verbatim>\<open>C[ldc * j + i] = v\<close> is recorded as \<open>((i, j), v)\<close>: row \<open>i\<close>, column \<open>j\<close>.
  \<open>C_index\<close> is the element of \<open>C\<close> that the cell names.
\<close>

definition C_index :: "int \<Rightarrow> cell \<Rightarrow> int" where
  "C_index ldc c = ldc * snd c + fst c"

text \<open>\<^verbatim>\<open>gemm_bloc<RM, RN>(ii, jj)\<close>; the accumulators \<^verbatim>\<open>Cv[j][i]\<close> are a function of \<open>(j, i)\<close>.\<close>

definition gemm_bloc ::
  "('v, 'd, 'f) vec_ops \<Rightarrow> int \<Rightarrow> int \<Rightarrow> int \<Rightarrow> int \<Rightarrow> int \<Rightarrow> int \<Rightarrow> int \<Rightarrow> int
     \<Rightarrow> error + (cell \<times> 'f) list" where
  "gemm_bloc ops KN k lda ldb rm rn ii jj =
     bind_err
       (loop 0 k KN
          (\<lambda>l Cv.
             if rm \<le> rn then
               let Av = (\<lambda>i. vload_A ops (lda * (ii + i) + l)) in
               fold (\<lambda>j Cv.
                       let Bv = vload_B ops (ldb * (jj + j) + l) in
                       fold (\<lambda>i Cv. Cv((j, i) := vmadd ops (Av i) Bv (Cv (j, i)))) [0..rm - 1] Cv)
                    [0..rn - 1] Cv
             else
               let Bv = (\<lambda>j. vload_B ops (ldb * (jj + j) + l)) in
               fold (\<lambda>i Cv.
                       let Av = vload_A ops (lda * (ii + i) + l) in
                       fold (\<lambda>j Cv. Cv((j, i) := vmadd ops Av (Bv j) (Cv (j, i)))) [0..rn - 1] Cv)
                    [0..rm - 1] Cv)
          (\<lambda>_. vzero ops))
       (\<lambda>(l, Cv).
          Inr (concat (map (\<lambda>j. map (\<lambda>i. ((ii + i, jj + j), vhsum ops (Cv (j, i)))) [0..rm - 1])
                           [0..rn - 1])))"

text \<open>
  The column loops of one row of blocks:
  \<^verbatim>\<open>for (; jj < stop; jj += step) gemm_bloc<RM, RN>(row, jj);\<close> appending to the writes so far.
\<close>

definition bloc_loop ::
  "('v, 'd, 'f) vec_ops \<Rightarrow> int \<Rightarrow> int \<Rightarrow> int \<Rightarrow> int \<Rightarrow> int \<Rightarrow> int \<Rightarrow> int \<Rightarrow> int \<Rightarrow> int \<Rightarrow> int
     \<Rightarrow> error + (cell \<times> 'f) list \<Rightarrow> error + (int \<times> (error + (cell \<times> 'f) list))" where
  "bloc_loop ops KN k lda ldb rm rn row jj stop step acc =
     loop jj stop step
       (\<lambda>jj acc. bind_err acc (\<lambda>ws.
                  bind_err (gemm_bloc ops KN k lda ldb rm rn row jj) (\<lambda>w. Inr (ws @ w))))
       acc"

text \<open>The body of the \<^verbatim>\<open>while (job < nb_job)\<close> loop of \<^verbatim>\<open>tinyBLAS::gemm\<close> for one job.\<close>

definition gemm_job ::
  "('v, 'd, 'f) vec_ops \<Rightarrow> int \<Rightarrow> int \<Rightarrow> int \<Rightarrow> int \<Rightarrow> gemm_consts \<Rightarrow> int
     \<Rightarrow> error + (cell \<times> 'f) list" where
  "gemm_job ops KN k lda ldb gc job =
     (if ytiles gc = 0 then Inl Division_by_zero
      else
        let ii = (job mod ytiles gc) * RM gc * BM gc;
            jb = job div ytiles gc;
            jr0 = BLOC_POS jb (jj_BN gc) (SIZE_BN gc);
            jrN = BLOC_POS (jb + 1) (jj_BN gc) (SIZE_BN gc);
            jj0 = BLOC_POS jr0 (jj_RN gc) (RN gc);
            jj2 = BLOC_POS jrN (jj_RN gc) (RN gc);
            jj1 = (if jj2 < jj_RN gc * RN gc then jj2 else jj_RN gc * RN gc)
        in
        bind_err
          (loop 0 (BM gc * RM gc) (RM gc)
             (\<lambda>bi acc.
                bind_err (bloc_loop ops KN k lda ldb (RM gc) (RN gc) (ii + bi) jj0 jj1 (RN gc) acc)
                  (\<lambda>(jj, acc).
                bind_err (if RN gc > 1
                          then bloc_loop ops KN k lda ldb (RM gc) (RN gc - 1) (ii + bi) jj jj2
                                 (RN gc - 1) acc
                          else Inr (jj, acc))
                  (\<lambda>(jj, acc).
                if jj \<noteq> jj2 then Inl Assert_failed else acc)))
             (Inr []))
          (\<lambda>(bi, acc). acc))"


subsection \<open>Integer vectors\<close>

text \<open>
  An \<^verbatim>\<open>__m128i\<close> or \<^verbatim>\<open>__m256i\<close> is the list of its bytes, lowest first (16 or 32 of them);
  a view in 16-bit or 32-bit lanes is the list of those lanes.  Each intrinsic below is
  the lanewise function of Intel's description.
\<close>

type_synonym u8 = "8 word"

fun epi16_of :: "u8 list \<Rightarrow> 16 word list" where
  "epi16_of (lo # hi # bs) = (ucast lo OR push_bit 8 (ucast hi)) # epi16_of bs"
| "epi16_of _ = []"

fun bytes_of_epi16 :: "16 word list \<Rightarrow> u8 list" where
  "bytes_of_epi16 [] = []"
| "bytes_of_epi16 (w # ws) = ucast w # ucast (drop_bit 8 w) # bytes_of_epi16 ws"

definition bytes_of_epi32 :: "32 word \<Rightarrow> u8 list" where
  "bytes_of_epi32 w = map (\<lambda>i. ucast (drop_bit (8 * i) w)) [0..<4]"

definition bytes_of_epi64 :: "64 word \<Rightarrow> u8 list" where
  "bytes_of_epi64 w = map (\<lambda>i. ucast (drop_bit (8 * i) w)) [0..<8]"

text \<open>\<^verbatim>\<open>memcpy(&x32, p, sizeof(uint32_t))\<close> on a little-endian target.\<close>

definition memcpy_u32 :: "u8 list \<Rightarrow> 32 word" where
  "memcpy_u32 p = ucast (p ! 0) OR push_bit 8 (ucast (p ! 1)) OR push_bit 16 (ucast (p ! 2))
                    OR push_bit 24 (ucast (p ! 3))"

definition mm_loadu_si128 :: "u8 list \<Rightarrow> u8 list" where
  "mm_loadu_si128 p = take 16 p"

definition mm256_loadu_si256 :: "u8 list \<Rightarrow> u8 list" where
  "mm256_loadu_si256 p = take 32 p"

definition mm_set1_epi8 :: "u8 \<Rightarrow> u8 list" where
  "mm_set1_epi8 c = replicate 16 c"

definition mm256_set1_epi8 :: "u8 \<Rightarrow> u8 list" where
  "mm256_set1_epi8 c = replicate 32 c"

definition mm_set1_epi16 :: "16 word \<Rightarrow> 16 word list" where
  "mm_set1_epi16 c = replicate 8 c"

definition mm256_set1_epi16 :: "16 word \<Rightarrow> 16 word list" where
  "mm256_set1_epi16 c = replicate 16 c"

definition mm_set1_epi32 :: "32 word \<Rightarrow> u8 list" where
  "mm_set1_epi32 x = concat (replicate 4 (bytes_of_epi32 x))"

definition mm256_set1_epi32 :: "32 word \<Rightarrow> u8 list" where
  "mm256_set1_epi32 x = concat (replicate 8 (bytes_of_epi32 x))"

definition mm_set_epi64x :: "64 word \<Rightarrow> 64 word \<Rightarrow> u8 list" where
  "mm_set_epi64x e1 e0 = bytes_of_epi64 e0 @ bytes_of_epi64 e1"

definition mm256_set_epi64x :: "64 word \<Rightarrow> 64 word \<Rightarrow> 64 word \<Rightarrow> 64 word \<Rightarrow> u8 list" where
  "mm256_set_epi64x e3 e2 e1 e0 =
     bytes_of_epi64 e0 @ bytes_of_epi64 e1 @ bytes_of_epi64 e2 @ bytes_of_epi64 e3"

definition mm_set1_epi64x :: "64 word \<Rightarrow> u8 list" where
  "mm_set1_epi64x e = concat (replicate 2 (bytes_of_epi64 e))"

definition mm256_set1_epi64x :: "64 word \<Rightarrow> u8 list" where
  "mm256_set1_epi64x e = concat (replicate 4 (bytes_of_epi64 e))"

definition mm256_setzero_si256 :: "32 word list" where
  "mm256_setzero_si256 = replicate 8 0"

definition mm_and_si128 :: "u8 list \<Rightarrow> u8 list \<Rightarrow> u8 list" where
  "mm_and_si128 a b = map2 (AND) a b"

definition mm256_and_si256 :: "u8 list \<Rightarrow> u8 list \<Rightarrow> u8 list" where
  "mm256_and_si256 a b = map2 (AND) a b"

definition mm_or_si128 :: "u8 list \<Rightarrow> u8 list \<Rightarrow> u8 list" where
  "mm_or_si128 a b = map2 (OR) a b"

definition mm256_or_si256 :: "u8 list \<Rightarrow> u8 list \<Rightarrow> u8 list" where
  "mm256_or_si256 a b = map2 (OR) a b"

definition mm_andnot_si128 :: "u8 list \<Rightarrow> u8 list \<Rightarrow> u8 list" where
  "mm_andnot_si128 a b = map2 (\<lambda>x y. NOT x AND y) a b"

definition mm256_andnot_si256 :: "u8 list \<Rightarrow> u8 list \<Rightarrow> u8 list" where
  "mm256_andnot_si256 a b = map2 (\<lambda>x y. NOT x AND y) a b"

definition mm_sub_epi8 :: "u8 list \<Rightarrow> u8 list \<Rightarrow> u8 list" where
  "mm_sub_epi8 a b = map2 (-) a b"

definition mm256_sub_epi8 :: "u8 list \<Rightarrow> u8 list \<Rightarrow> u8 list" where
  "mm256_sub_epi8 a b = map2 (-) a b"

definition mm_cmpeq_epi8 :: "u8 list \<Rightarrow> u8 list \<Rightarrow> u8 list" where
  "mm_cmpeq_epi8 a b = map2 (\<lambda>x y. if x = y then 0xFF else 0) a b"

definition mm256_cmpeq_epi8 :: "u8 list \<Rightarrow> u8 list \<Rightarrow> u8 list" where
  "mm256_cmpeq_epi8 a b = map2 (\<lambda>x y. if x = y then 0xFF else 0) a b"

definition mm_srli_epi16 :: "u8 list \<Rightarrow> nat \<Rightarrow> u8 list" where
  "mm_srli_epi16 x c = bytes_of_epi16 (map (drop_bit c) (epi16_of x))"

text \<open>\<^verbatim>\<open>pshufb\<close>: a zero where the index byte has its top bit set, else the byte of \<open>a\<close> named
  by the low four bits of the index; the 256-bit form shuffles each half on its own.\<close>

definition mm_shuffle_epi8 :: "u8 list \<Rightarrow> u8 list \<Rightarrow> u8 list" where
  "mm_shuffle_epi8 a b = map (\<lambda>c. if bit c 7 then 0 else a ! unat (c AND 15)) b"

definition mm256_shuffle_epi8 :: "u8 list \<Rightarrow> u8 list \<Rightarrow> u8 list" where
  "mm256_shuffle_epi8 a b =
     mm_shuffle_epi8 (take 16 a) (take 16 b) @ mm_shuffle_epi8 (drop 16 a) (drop 16 b)"

text \<open>\<^verbatim>\<open>_mm256_insertf128_si256(_mm256_castsi128_si256(lo), hi, 1)\<close> and the macro built on it.\<close>

definition mm256_insertf128_cast :: "u8 list \<Rightarrow> u8 list \<Rightarrow> u8 list" where
  "mm256_insertf128_cast lo hi = lo @ hi"

definition MM256_SET_M128I :: "'a list \<Rightarrow> 'a list \<Rightarrow> 'a list" where
  "MM256_SET_M128I a b = b @ a"

definition sign_epi8 :: "u8 list \<Rightarrow> u8 list \<Rightarrow> u8 list" where
  "sign_epi8 a b = map2 (\<lambda>x y. if sint y < 0 then - x else if y = 0 then 0 else x) a b"

definition mm_sign_epi8 :: "u8 list \<Rightarrow> u8 list \<Rightarrow> u8 list" where
  "mm_sign_epi8 = sign_epi8"

definition mm256_sign_epi8 :: "u8 list \<Rightarrow> u8 list \<Rightarrow> u8 list" where
  "mm256_sign_epi8 = sign_epi8"

definition saturate16 :: "int \<Rightarrow> 16 word" where
  "saturate16 x = word_of_int (if x > 32767 then 32767 else if x < - 32768 then - 32768 else x)"

text \<open>\<^verbatim>\<open>pmaddubsw\<close>: unsigned bytes of \<open>u\<close> times signed bytes of \<open>s\<close>, adjacent pairs added
  with signed saturation to 16 bits.\<close>

definition maddubs_epi16 :: "u8 list \<Rightarrow> u8 list \<Rightarrow> 16 word list" where
  "maddubs_epi16 u s =
     map (\<lambda>j. saturate16 (uint (u ! (2 * j)) * sint (s ! (2 * j))
                           + uint (u ! (2 * j + 1)) * sint (s ! (2 * j + 1))))
         [0..<length u div 2]"

definition mm_maddubs_epi16 :: "u8 list \<Rightarrow> u8 list \<Rightarrow> 16 word list" where
  "mm_maddubs_epi16 = maddubs_epi16"

definition mm256_maddubs_epi16 :: "u8 list \<Rightarrow> u8 list \<Rightarrow> 16 word list" where
  "mm256_maddubs_epi16 = maddubs_epi16"

text \<open>\<^verbatim>\<open>pmaddwd\<close>: signed 16-bit lanes multiplied, adjacent pairs added in 32 bits.\<close>

definition madd_epi16 :: "16 word list \<Rightarrow> 16 word list \<Rightarrow> 32 word list" where
  "madd_epi16 a b =
     map (\<lambda>j. word_of_int (sint (a ! (2 * j)) * sint (b ! (2 * j))
                            + sint (a ! (2 * j + 1)) * sint (b ! (2 * j + 1))))
         [0..<length a div 2]"

definition mm_madd_epi16 :: "16 word list \<Rightarrow> 16 word list \<Rightarrow> 32 word list" where
  "mm_madd_epi16 = madd_epi16"

definition mm256_madd_epi16 :: "16 word list \<Rightarrow> 16 word list \<Rightarrow> 32 word list" where
  "mm256_madd_epi16 = madd_epi16"

text \<open>\<^verbatim>\<open>vpdpbusd\<close>: four adjacent products of an unsigned byte of \<open>u\<close> and a signed byte of
  \<open>s\<close> added to the 32-bit lane of \<open>src\<close>, without saturation.\<close>

definition dpbusd_epi32 :: "32 word list \<Rightarrow> u8 list \<Rightarrow> u8 list \<Rightarrow> 32 word list" where
  "dpbusd_epi32 src u s =
     map (\<lambda>j. src ! j + word_of_int (uint (u ! (4 * j)) * sint (s ! (4 * j)))
                       + word_of_int (uint (u ! (4 * j + 1)) * sint (s ! (4 * j + 1)))
                       + word_of_int (uint (u ! (4 * j + 2)) * sint (s ! (4 * j + 2)))
                       + word_of_int (uint (u ! (4 * j + 3)) * sint (s ! (4 * j + 3))))
         [0..<length src]"

definition mm256_dpbusd_epi32 :: "32 word list \<Rightarrow> u8 list \<Rightarrow> u8 list \<Rightarrow> 32 word list" where
  "mm256_dpbusd_epi32 = dpbusd_epi32"

definition mm256_dpbusd_avx_epi32 :: "32 word list \<Rightarrow> u8 list \<Rightarrow> u8 list \<Rightarrow> 32 word list" where
  "mm256_dpbusd_avx_epi32 = dpbusd_epi32"

subsection \<open>Compile-time configuration and scalar arithmetic\<close>

text \<open>
  The preprocessor symbols that select code in the file.  \<^verbatim>\<open>__MMA__\<close> is left out: with it
  the entry point names a class that the file does not define.
\<close>

record config =
  AVX512F :: bool
  AVX :: bool
  AVX2 :: bool
  F16C :: bool
  FMA :: bool
  AVX512BF16 :: bool
  AVX512VNNI :: bool
  AVX512VL :: bool
  AVXVNNI :: bool
  VXE :: bool
  ARM_NEON :: bool

definition VECTOR_REGISTERS :: "config \<Rightarrow> int" where
  "VECTOR_REGISTERS cf = (if ARM_NEON cf \<or> AVX512F cf \<or> VXE cf then 32 else 16)"

text \<open>
  Single-precision arithmetic, kept abstract: \<open>'f\<close> is \<^verbatim>\<open>float\<close>.  \<open>unhalf\<close> is the macro
  \<^verbatim>\<open>GGML_FP16_TO_FP32\<close>, \<open>cvtph\<close> one lane of \<^verbatim>\<open>_mm_cvtph_ps\<close>, \<open>ffma\<close> one lane of
  \<^verbatim>\<open>_mm256_fmadd_ps\<close>, \<open>i2f\<close> one lane of \<^verbatim>\<open>_mm256_cvtepi32_ps\<close>.
\<close>

record 'f float_ops =
  unhalf :: "16 word \<Rightarrow> 'f"
  cvtph :: "16 word \<Rightarrow> 'f"
  fadd :: "'f \<Rightarrow> 'f \<Rightarrow> 'f"
  fmul :: "'f \<Rightarrow> 'f \<Rightarrow> 'f"
  ffma :: "'f \<Rightarrow> 'f \<Rightarrow> 'f \<Rightarrow> 'f"
  i2f :: "32 word \<Rightarrow> 'f"
  fzero :: "'f"

definition mm256_cvtepi32_ps :: "'f float_ops \<Rightarrow> 32 word list \<Rightarrow> 'f list" where
  "mm256_cvtepi32_ps fo v = map (i2f fo) v"

definition mm_set1_ps :: "'f \<Rightarrow> 'f list" where
  "mm_set1_ps x = replicate 4 x"

definition mm256_set1_ps :: "'f \<Rightarrow> 'f list" where
  "mm256_set1_ps x = replicate 8 x"

definition mm_mul_ps :: "'f float_ops \<Rightarrow> 'f list \<Rightarrow> 'f list \<Rightarrow> 'f list" where
  "mm_mul_ps fo a b = map2 (fmul fo) a b"

definition mm_add_ps :: "'f float_ops \<Rightarrow> 'f list \<Rightarrow> 'f list \<Rightarrow> 'f list" where
  "mm_add_ps fo a b = map2 (fadd fo) a b"

text \<open>\<^verbatim>\<open>_mm_cvtph_ps(_mm_set_epi64x(0, w))\<close>: the four halves of the low quadword, converted.\<close>

definition mm_cvtph_ps_epi64x :: "'f float_ops \<Rightarrow> 64 word \<Rightarrow> 'f list" where
  "mm_cvtph_ps_epi64x fo w = map (\<lambda>i. cvtph fo (ucast (drop_bit (16 * i) w))) [0..<4]"

text \<open>\<^verbatim>\<open>_mm256_permute2f128_ps(_mm256_castps128_ps256(x), same, 0)\<close>: the low half in both
  halves (the cast leaves the high half undefined, and selector 0 does not read it).\<close>

definition mm256_permute2f128_cast0 :: "'f list \<Rightarrow> 'f list" where
  "mm256_permute2f128_cast0 x = take 4 x @ take 4 x"

text \<open>\<^verbatim>\<open>_mm256_shuffle_ps(a, b, imm)\<close>, in each 128-bit half.\<close>

definition shuffle_ps_half :: "'f list \<Rightarrow> 'f list \<Rightarrow> nat \<Rightarrow> 'f list" where
  "shuffle_ps_half a b imm =
     [a ! (imm mod 4), a ! (imm div 4 mod 4), b ! (imm div 16 mod 4), b ! (imm div 64 mod 4)]"

definition mm256_shuffle_ps :: "'f list \<Rightarrow> 'f list \<Rightarrow> nat \<Rightarrow> 'f list" where
  "mm256_shuffle_ps a b imm =
     shuffle_ps_half (take 4 a) (take 4 b) imm @ shuffle_ps_half (drop 4 a) (drop 4 b) imm"

text \<open>\<^verbatim>\<open>madd(a, b, c)\<close> on \<^verbatim>\<open>__m256\<close>: fused with \<^verbatim>\<open>__FMA__\<close>, else \<^verbatim>\<open>add(mul(a, b), c)\<close>.\<close>

definition madd :: "config \<Rightarrow> 'f float_ops \<Rightarrow> 'f list \<Rightarrow> 'f list \<Rightarrow> 'f list \<Rightarrow> 'f list" where
  "madd cf fo a b c =
     (if FMA cf then map (\<lambda>(x, y, z). ffma fo x y z) (zip a (zip b c))
      else map2 (fadd fo) (map2 (fmul fo) a b) c)"

text \<open>\<^verbatim>\<open>hsum(__m128)\<close> in its AVX branch and \<^verbatim>\<open>hsum(__m256)\<close>.\<close>

definition hsum128 :: "'f float_ops \<Rightarrow> 'f list \<Rightarrow> 'f" where
  "hsum128 fo x =
     (let y = mm_add_ps fo x [x ! 2, x ! 3, x ! 2, x ! 3] in fadd fo (y ! 0) (y ! 1))"

definition hsum :: "'f float_ops \<Rightarrow> 'f list \<Rightarrow> 'f" where
  "hsum fo x = hsum128 fo (mm_add_ps fo (drop 4 x) (take 4 x))"


subsection \<open>Quantised blocks and their decoders\<close>

text \<open>
  Modelled from the spec: the block structures \<^verbatim>\<open>block_q8_0\<close>, \<^verbatim>\<open>block_q4_0\<close>, \<^verbatim>\<open>block_q5_0\<close>
  and \<^verbatim>\<open>block_iq4_nl\<close> are declared outside the file.  A block is its delta \<open>d\<close> (an f16 bit
  pattern), its payload \<open>qs\<close> (32 bytes for q8_0, 16 for the others) and, for q5_0, the four
  bytes \<open>qh\<close>; the element type tells which decoder reads it.
\<close>

record block =
  d :: "16 word"
  qh :: "u8 list"
  qs :: "u8 list"

datatype ggml_type =
  GGML_TYPE_F32 | GGML_TYPE_F16 | GGML_TYPE_BF16
| GGML_TYPE_Q8_0 | GGML_TYPE_Q4_0 | GGML_TYPE_Q5_0 | GGML_TYPE_IQ4_NL
| GGML_TYPE_OTHER

definition kvalues_iq4nl :: "u8 list" where
  "kvalues_iq4nl = map word_of_int [-127, -104, -83, -65, -49, -35, -22, -10,
                                    1, 13, 25, 38, 53, 69, 89, 113]"

text \<open>The constructor's \<^verbatim>\<open>iq4nlt = _mm_loadu_si128(kvalues_iq4nl)\<close>.\<close>

definition iq4nlt :: "u8 list" where
  "iq4nlt = mm_loadu_si128 kvalues_iq4nl"

definition denibble :: "u8 list \<Rightarrow> u8 list" where
  "denibble p =
     (let x = mm_loadu_si128 p in
      mm256_and_si256 (mm256_set1_epi8 15) (mm256_insertf128_cast x (mm_srli_epi16 x 4)))"

definition bittobyte :: "u8 list \<Rightarrow> u8 list" where
  "bittobyte p =
     (let x32 = memcpy_u32 p;
          bytes = mm256_cmpeq_epi8 (mm256_set1_epi64x (- 1))
                    (mm256_or_si256 (mm256_set1_epi64x 0x7fbfdfeff7fbfdfe)
                       (mm256_shuffle_epi8 (mm256_set1_epi32 x32)
                          (mm256_set_epi64x 0x0303030303030303 0x0202020202020202
                                            0x0101010101010101 0x0000000000000000)))
      in mm256_andnot_si256 bytes (mm256_set1_epi8 0xF0))"

definition load_q8_0 :: "block \<Rightarrow> u8 list" where
  "load_q8_0 b = mm256_loadu_si256 (qs b)"

definition load0_q8_0 :: "block \<Rightarrow> u8 list" where
  "load0_q8_0 b = mm_loadu_si128 (qs b)"

definition load1_q8_0 :: "block \<Rightarrow> u8 list" where
  "load1_q8_0 b = mm_loadu_si128 (drop 16 (qs b))"

definition load_q4_0 :: "block \<Rightarrow> u8 list" where
  "load_q4_0 b = mm256_sub_epi8 (denibble (qs b)) (mm256_set1_epi8 8)"

definition load0_q4_0 :: "block \<Rightarrow> u8 list" where
  "load0_q4_0 b =
     (let x = mm_loadu_si128 (qs b) in
      mm_sub_epi8 (mm_and_si128 (mm_set1_epi8 15) x) (mm_set1_epi8 8))"

definition load1_q4_0 :: "block \<Rightarrow> u8 list" where
  "load1_q4_0 b =
     (let x = mm_loadu_si128 (qs b) in
      mm_sub_epi8 (mm_and_si128 (mm_set1_epi8 15) (mm_srli_epi16 x 4)) (mm_set1_epi8 8))"

definition load_q5_0 :: "block \<Rightarrow> u8 list" where
  "load_q5_0 b = mm256_or_si256 (denibble (qs b)) (bittobyte (qh b))"

definition load0_q5_0 :: "block \<Rightarrow> u8 list" where
  "load0_q5_0 b =
     (let x = mm_loadu_si128 (qs b);
          x32 = memcpy_u32 (qh b);
          qxl = mm_and_si128 (mm_set1_epi8 15) x;
          bytesl = mm_cmpeq_epi8 (mm_set1_epi64x (- 1))
                     (mm_or_si128 (mm_set1_epi64x 0x7fbfdfeff7fbfdfe)
                        (mm_shuffle_epi8 (mm_set1_epi32 x32)
                           (mm_set_epi64x 0x0101010101010101 0x0000000000000000)));
          bytesl = mm_andnot_si128 bytesl (mm_set1_epi8 0xF0)
      in mm_or_si128 qxl bytesl)"

definition load1_q5_0 :: "block \<Rightarrow> u8 list" where
  "load1_q5_0 b =
     (let x = mm_loadu_si128 (qs b);
          x32 = memcpy_u32 (qh b);
          qxh = mm_and_si128 (mm_set1_epi8 15) (mm_srli_epi16 x 4);
          bytesh = mm_cmpeq_epi8 (mm_set1_epi64x (- 1))
                     (mm_or_si128 (mm_set1_epi64x 0x7fbfdfeff7fbfdfe)
                        (mm_shuffle_epi8 (mm_set1_epi32 x32)
                           (mm_set_epi64x 0x0303030303030303 0x0202020202020202)));
          bytesh = mm_andnot_si128 bytesh (mm_set1_epi8 0xF0)
      in mm_or_si128 qxh bytesh)"

definition load0_iq4_nl :: "block \<Rightarrow> u8 list" where
  "load0_iq4_nl b =
     (let x = mm_loadu_si128 (qs b) in
      mm_shuffle_epi8 iq4nlt (mm_and_si128 (mm_set1_epi8 15) x))"

definition load1_iq4_nl :: "block \<Rightarrow> u8 list" where
  "load1_iq4_nl b =
     (let x = mm_loadu_si128 (qs b) in
      mm_shuffle_epi8 iq4nlt (mm_and_si128 (mm_set1_epi8 15) (mm_srli_epi16 x 4)))"

definition load_iq4_nl :: "block \<Rightarrow> u8 list" where
  "load_iq4_nl b = MM256_SET_M128I (load1_iq4_nl b) (load0_iq4_nl b)"

text \<open>
  The overloads \<^verbatim>\<open>load\<close>, \<^verbatim>\<open>load0\<close>, \<^verbatim>\<open>load1\<close>, chosen by the block type.  The class is
  instantiated for the four quantised types only; no overload exists for another type.
\<close>

definition load :: "ggml_type \<Rightarrow> block \<Rightarrow> u8 list" where
  "load T b =
     (case T of GGML_TYPE_Q8_0 \<Rightarrow> load_q8_0 b | GGML_TYPE_Q4_0 \<Rightarrow> load_q4_0 b
      | GGML_TYPE_Q5_0 \<Rightarrow> load_q5_0 b | GGML_TYPE_IQ4_NL \<Rightarrow> load_iq4_nl b | _ \<Rightarrow> [])"

definition load0 :: "ggml_type \<Rightarrow> block \<Rightarrow> u8 list" where
  "load0 T b =
     (case T of GGML_TYPE_Q8_0 \<Rightarrow> load0_q8_0 b | GGML_TYPE_Q4_0 \<Rightarrow> load0_q4_0 b
      | GGML_TYPE_Q5_0 \<Rightarrow> load0_q5_0 b | GGML_TYPE_IQ4_NL \<Rightarrow> load0_iq4_nl b | _ \<Rightarrow> [])"

definition load1 :: "ggml_type \<Rightarrow> block \<Rightarrow> u8 list" where
  "load1 T b =
     (case T of GGML_TYPE_Q8_0 \<Rightarrow> load1_q8_0 b | GGML_TYPE_Q4_0 \<Rightarrow> load1_q4_0 b
      | GGML_TYPE_Q5_0 \<Rightarrow> load1_q5_0 b | GGML_TYPE_IQ4_NL \<Rightarrow> load1_iq4_nl b | _ \<Rightarrow> [])"

subsection \<open>The dot primitive\<close>

text \<open>\<^verbatim>\<open>updot(u, s)\<close> with its three tiers; \<open>updot_epi32\<close> is \<^verbatim>\<open>res\<close> before the conversion.\<close>

definition updot_epi32 :: "config \<Rightarrow> u8 list \<Rightarrow> u8 list \<Rightarrow> 32 word list" where
  "updot_epi32 cf u s =
     (if AVX512VNNI cf \<and> AVX512VL cf then mm256_dpbusd_epi32 mm256_setzero_si256 u s
      else if AVXVNNI cf then mm256_dpbusd_avx_epi32 mm256_setzero_si256 u s
      else mm256_madd_epi16 (mm256_set1_epi16 1) (mm256_maddubs_epi16 u s))"

definition updot :: "config \<Rightarrow> 'f float_ops \<Rightarrow> u8 list \<Rightarrow> u8 list \<Rightarrow> 'f list" where
  "updot cf fo u s = mm256_cvtepi32_ps fo (updot_epi32 cf u s)"


subsection \<open>Quantised engine: the tile kernels\<close>

text \<open>
  The kernel object \<^verbatim>\<open>tinyBLAS_Q0_AVX<TA, TB, TC>\<close>: its members, the build configuration and the
  arithmetic.  \<open>q_A i\<close> is the block \<^verbatim>\<open>A[i]\<close>, \<open>q_B i\<close> the block \<^verbatim>\<open>B[i]\<close>.
\<close>

record 'f Q0_AVX =
  q_cf :: config
  q_fo :: "'f float_ops"
  q_TA :: ggml_type
  q_TB :: ggml_type
  q_A :: "int \<Rightarrow> block"
  q_B :: "int \<Rightarrow> block"
  q_k :: int
  q_lda :: int
  q_ldb :: int
  q_ldc :: int
  q_ith :: int
  q_nth :: int

text \<open>The jobs of this worker: \<^verbatim>\<open>duty\<close>, \<^verbatim>\<open>start\<close>, \<^verbatim>\<open>end\<close> and the range of the job loop.\<close>

definition duty_jobs :: "int \<Rightarrow> int \<Rightarrow> int \<Rightarrow> int list" where
  "duty_jobs tiles ith nthreads =
     (let duty = (tiles + nthreads - 1) div nthreads;
          start = duty * ith;
          end0 = start + duty;
          end1 = (if end0 > tiles then tiles else end0)
      in [start..end1 - 1])"

definition mm256_setzero_ps :: "'f float_ops \<Rightarrow> 'f list" where
  "mm256_setzero_ps fo = replicate 8 (fzero fo)"

text \<open>The closing loops of every kernel: \<^verbatim>\<open>C[ldc * (jj + j) + (ii + i)] = hsum(Cv[j][i])\<close>.\<close>

definition store_tile ::
  "'f float_ops \<Rightarrow> int \<Rightarrow> int \<Rightarrow> int \<Rightarrow> int \<Rightarrow> (int \<times> int \<Rightarrow> 'f list) \<Rightarrow> (cell \<times> 'f) list" where
  "store_tile fo rm rn ii jj Cv =
     concat (map (\<lambda>j. map (\<lambda>i. ((ii + i, jj + j), hsum fo (Cv (j, i)))) [0..rm - 1]) [0..rn - 1])"

text \<open>\<^verbatim>\<open>udTmp\<close> of the generic kernel for the blocks \<open>a\<close> of \<open>A\<close> and \<open>b\<close> of \<open>B\<close>: through
  \<^verbatim>\<open>updot\<close> with AVX2, through the two 128-bit halves without.\<close>

definition gemm_udTmp :: "'f Q0_AVX \<Rightarrow> block \<Rightarrow> block \<Rightarrow> 'f list" where
  "gemm_udTmp Q a b =
     (if AVX2 (q_cf Q) then
        updot (q_cf Q) (q_fo Q)
          (mm256_sign_epi8 (load (q_TA Q) a) (load (q_TA Q) a))
          (mm256_sign_epi8 (load (q_TB Q) b) (load (q_TA Q) a))
      else
        let ali0 = load0 (q_TA Q) a;
            ali1 = load1 (q_TA Q) a;
            blj0 = load0 (q_TB Q) b;
            blj1 = load1 (q_TB Q) b;
            sepAA0 = mm_sign_epi8 ali0 ali0;
            sepAA1 = mm_sign_epi8 ali1 ali1;
            sepBA0 = mm_sign_epi8 blj0 ali0;
            sepBA1 = mm_sign_epi8 blj1 ali1;
            oneFill = mm_set1_epi16 1;
            mad0 = mm_maddubs_epi16 sepAA0 sepBA0;
            mad1 = mm_maddubs_epi16 sepAA1 sepBA1
        in mm256_cvtepi32_ps (q_fo Q)
             (MM256_SET_M128I (mm_madd_epi16 oneFill mad1) (mm_madd_epi16 oneFill mad0)))"

text \<open>\<^verbatim>\<open>gemm<RM, RN>(m0, m, n0, n)\<close>.\<close>

definition Q0_gemm ::
  "'f Q0_AVX \<Rightarrow> int \<Rightarrow> int \<Rightarrow> int \<Rightarrow> int \<Rightarrow> int \<Rightarrow> int \<Rightarrow> (cell \<times> 'f) list" where
  "Q0_gemm Q rm rn m0 m n0 n =
     (let yt = (m - m0) div rm;
          xt = (n - n0) div rn;
          tiles = xt * yt
      in concat (map
           (\<lambda>job.
              let ii = m0 + job div xt * rm;
                  jj = n0 + job mod xt * rn;
                  Cv = fold (\<lambda>l Cv.
                         fold (\<lambda>j Cv.
                           fold (\<lambda>i Cv.
                             let a = q_A Q (q_lda Q * (ii + i) + l);
                                 b = q_B Q (q_ldb Q * (jj + j) + l)
                             in Cv((j, i) :=
                                  madd (q_cf Q) (q_fo Q)
                                    (mm256_set1_ps (fmul (q_fo Q) (unhalf (q_fo Q) (d a))
                                                                  (unhalf (q_fo Q) (d b))))
                                    (gemm_udTmp Q a b)
                                    (Cv (j, i))))
                             [0..rm - 1] Cv)
                           [0..rn - 1] Cv)
                         [0..q_k Q - 1] (\<lambda>_. mm256_setzero_ps (q_fo Q))
              in store_tile (q_fo Q) rm rn ii jj Cv)
           (duty_jobs tiles (q_ith Q) (q_nth Q))))"

text \<open>The four deltas packed as \<^verbatim>\<open>a_delta\<close> and \<^verbatim>\<open>b_delta\<close> are.\<close>

definition pack_delta :: "16 word \<Rightarrow> 16 word \<Rightarrow> 16 word \<Rightarrow> 16 word \<Rightarrow> 64 word" where
  "pack_delta d3 d2 d1 d0 =
     push_bit 48 (ucast d3) OR push_bit 32 (ucast d2) OR push_bit 16 (ucast d1) OR ucast d0"

text \<open>\<^verbatim>\<open>gemm4xN<RN>(m0, m, n0, n)\<close>.\<close>

definition Q0_gemm4xN ::
  "'f Q0_AVX \<Rightarrow> int \<Rightarrow> int \<Rightarrow> int \<Rightarrow> int \<Rightarrow> int \<Rightarrow> (cell \<times> 'f) list" where
  "Q0_gemm4xN Q rn m0 m n0 n =
     (let yt = (m - m0) div 4;
          xt = (n - n0) div rn;
          tiles = xt * yt
      in concat (map
           (\<lambda>job.
              let ii = m0 + job div xt * 4;
                  jj = n0 + job mod xt * rn;
                  Cv = fold (\<lambda>l Cv.
                         let Ab = (\<lambda>i. q_A Q (q_lda Q * (ii + i) + l));
                             a_delta = pack_delta (d (Ab 3)) (d (Ab 2)) (d (Ab 1)) (d (Ab 0));
                             da = mm_cvtph_ps_epi64x (q_fo Q) a_delta;
                             avec0 = load (q_TA Q) (Ab 0);
                             avec1 = load (q_TA Q) (Ab 1);
                             avec2 = load (q_TA Q) (Ab 2);
                             avec3 = load (q_TA Q) (Ab 3)
                         in fold (\<lambda>j Cv.
                              let bj = q_B Q (q_ldb Q * (jj + j) + l);
                                  db = mm_set1_ps (unhalf (q_fo Q) (d bj));
                                  dvec = mm256_permute2f128_cast0 (mm_mul_ps (q_fo Q) da db);
                                  Cv = Cv((j, 0) :=
                                         madd (q_cf Q) (q_fo Q) (mm256_shuffle_ps dvec dvec 0)
                                           (updot (q_cf Q) (q_fo Q)
                                              (mm256_sign_epi8 avec0 avec0)
                                              (mm256_sign_epi8 (load (q_TB Q) bj) avec0))
                                           (Cv (j, 0)));
                                  Cv = Cv((j, 1) :=
                                         madd (q_cf Q) (q_fo Q) (mm256_shuffle_ps dvec dvec 85)
                                           (updot (q_cf Q) (q_fo Q)
                                              (mm256_sign_epi8 avec1 avec1)
                                              (mm256_sign_epi8 (load (q_TB Q) bj) avec1))
                                           (Cv (j, 1)));
                                  Cv = Cv((j, 2) :=
                                         madd (q_cf Q) (q_fo Q) (mm256_shuffle_ps dvec dvec 170)
                                           (updot (q_cf Q) (q_fo Q)
                                              (mm256_sign_epi8 avec2 avec2)
                                              (mm256_sign_epi8 (load (q_TB Q) bj) avec2))
                                           (Cv (j, 2)));
                                  Cv = Cv((j, 3) :=
                                         madd (q_cf Q) (q_fo Q) (mm256_shuffle_ps dvec dvec 255)
                                           (updot (q_cf Q) (q_fo Q)
                                              (mm256_sign_epi8 avec3 avec3)
                                              (mm256_sign_epi8 (load (q_TB Q) bj) avec3))
                                           (Cv (j, 3)))
                              in Cv)
                              [0..rn - 1] Cv)
                         [0..q_k Q - 1] (\<lambda>_. mm256_setzero_ps (q_fo Q))
              in store_tile (q_fo Q) 4 rn ii jj Cv)
           (duty_jobs tiles (q_ith Q) (q_nth Q))))"

text \<open>\<^verbatim>\<open>gemmMx4<RM>(m0, m, n0, n)\<close>.\<close>

definition Q0_gemmMx4 ::
  "'f Q0_AVX \<Rightarrow> int \<Rightarrow> int \<Rightarrow> int \<Rightarrow> int \<Rightarrow> int \<Rightarrow> (cell \<times> 'f) list" where
  "Q0_gemmMx4 Q rm m0 m n0 n =
     (let yt = (m - m0) div rm;
          xt = (n - n0) div 4;
          tiles = xt * yt
      in concat (map
           (\<lambda>job.
              let ii = m0 + job div xt * rm;
                  jj = n0 + job mod xt * 4;
                  Cv = fold (\<lambda>l Cv.
                         let Bb = (\<lambda>j. q_B Q (q_ldb Q * (jj + j) + l));
                             b_delta = pack_delta (d (Bb 3)) (d (Bb 2)) (d (Bb 1)) (d (Bb 0));
                             db = mm_cvtph_ps_epi64x (q_fo Q) b_delta;
                             bvec0 = load (q_TB Q) (Bb 0);
                             bvec1 = load (q_TB Q) (Bb 1);
                             bvec2 = load (q_TB Q) (Bb 2);
                             bvec3 = load (q_TB Q) (Bb 3)
                         in fold (\<lambda>i Cv.
                              let ai = q_A Q (q_lda Q * (ii + i) + l);
                                  da = mm_set1_ps (unhalf (q_fo Q) (d ai));
                                  dvec = mm256_permute2f128_cast0 (mm_mul_ps (q_fo Q) da db);
                                  Cv = Cv((0, i) :=
                                         madd (q_cf Q) (q_fo Q) (mm256_shuffle_ps dvec dvec 0)
                                           (updot (q_cf Q) (q_fo Q)
                                              (mm256_sign_epi8 (load (q_TA Q) ai) (load (q_TA Q) ai))
                                              (mm256_sign_epi8 bvec0 (load (q_TA Q) ai)))
                                           (Cv (0, i)));
                                  Cv = Cv((1, i) :=
                                         madd (q_cf Q) (q_fo Q) (mm256_shuffle_ps dvec dvec 85)
                                           (updot (q_cf Q) (q_fo Q)
                                              (mm256_sign_epi8 (load (q_TA Q) ai) (load (q_TA Q) ai))
                                              (mm256_sign_epi8 bvec1 (load (q_TA Q) ai)))
                                           (Cv (1, i)));
                                  Cv = Cv((2, i) :=
                                         madd (q_cf Q) (q_fo Q) (mm256_shuffle_ps dvec dvec 170)
                                           (updot (q_cf Q) (q_fo Q)
                                              (mm256_sign_epi8 (load (q_TA Q) ai) (load (q_TA Q) ai))
                                              (mm256_sign_epi8 bvec2 (load (q_TA Q) ai)))
                                           (Cv (2, i)));
                                  Cv = Cv((3, i) :=
                                         madd (q_cf Q) (q_fo Q) (mm256_shuffle_ps dvec dvec 255)
                                           (updot (q_cf Q) (q_fo Q)
                                              (mm256_sign_epi8 (load (q_TA Q) ai) (load (q_TA Q) ai))
                                              (mm256_sign_epi8 bvec3 (load (q_TA Q) ai)))
                                           (Cv (3, i)))
                              in Cv)
                              [0..rm - 1] Cv)
                         [0..q_k Q - 1] (\<lambda>_. mm256_setzero_ps (q_fo Q))
              in store_tile (q_fo Q) rm 4 ii jj Cv)
           (duty_jobs tiles (q_ith Q) (q_nth Q))))"

subsection \<open>Quantised engine: the partitioner\<close>

text \<open>
  The \<^verbatim>\<open>switch\<close> of \<^verbatim>\<open>mnpack\<close>: for a key, \<open>(mc, nc)\<close> and the kernel that the case calls, in the
  source's order of cases; \<open>None\<close> is \<^verbatim>\<open>default: return\<close>.  The fast kernels are compiled
  with \<^verbatim>\<open>__AVX2__\<close> and \<^verbatim>\<open>__F16C__\<close>.
\<close>

datatype tile_kernel = Gemm | Gemm4xN | GemmMx4

definition mnpack_switch :: "config \<Rightarrow> int \<Rightarrow> (int \<times> int \<times> tile_kernel) option" where
  "mnpack_switch cf key =
     (let fast = (AVX2 cf \<and> F16C cf);
          f4xN = (if fast then Gemm4xN else Gemm);
          fMx4 = (if fast then GemmMx4 else Gemm)
      in
      if VECTOR_REGISTERS cf = 32 \<and> key = 0x44 then Some (4, 4, f4xN)
      else if VECTOR_REGISTERS cf = 32 \<and> key = 0x43 then Some (4, 3, f4xN)
      else if VECTOR_REGISTERS cf = 32 \<and> key = 0x34 then Some (3, 4, fMx4)
      else if VECTOR_REGISTERS cf = 32 \<and> key = 0x33 then Some (3, 3, Gemm)
      else if VECTOR_REGISTERS cf = 32 \<and> key = 0x42 then Some (4, 2, f4xN)
      else if VECTOR_REGISTERS cf = 32 \<and> key = 0x24 then Some (2, 4, fMx4)
      else if VECTOR_REGISTERS cf \<noteq> 32 \<and> (key = 0x44 \<or> key = 0x43 \<or> key = 0x42)
        then Some (4, 2, f4xN)
      else if VECTOR_REGISTERS cf \<noteq> 32 \<and> (key = 0x34 \<or> key = 0x24) then Some (2, 4, fMx4)
      else if (VECTOR_REGISTERS cf \<noteq> 32 \<and> key = 0x33) \<or> key = 0x32 then Some (3, 2, Gemm)
      else if key = 0x23 then Some (2, 3, Gemm)
      else if key = 0x41 then Some (4, 1, f4xN)
      else if key = 0x22 then Some (2, 2, Gemm)
      else if key = 0x14 then Some (1, 4, fMx4)
      else if key = 0x31 then Some (3, 1, Gemm)
      else if key = 0x13 then Some (1, 3, Gemm)
      else if key = 0x21 then Some (2, 1, Gemm)
      else if key = 0x12 then Some (1, 2, Gemm)
      else if key = 0x11 then Some (1, 1, Gemm)
      else None)"

definition mnpack_call ::
  "'f Q0_AVX \<Rightarrow> tile_kernel \<Rightarrow> int \<Rightarrow> int \<Rightarrow> int \<Rightarrow> int \<Rightarrow> int \<Rightarrow> int \<Rightarrow> (cell \<times> 'f) list" where
  "mnpack_call Q kern mc nc m0 m n0 n =
     (case kern of
        Gemm \<Rightarrow> Q0_gemm Q mc nc m0 m n0 n
      | Gemm4xN \<Rightarrow> Q0_gemm4xN Q nc m0 m n0 n
      | GemmMx4 \<Rightarrow> Q0_gemmMx4 Q mc m0 m n0 n)"

text \<open>
  \<^verbatim>\<open>tinyBLAS_Q0_AVX::mnpack(m0, m, n0, n)\<close>: the writes of this worker, in order.  The
  recursion is not assumed to end: \<open>None\<close> is a call that does not return.
\<close>

partial_function (option) Q0_mnpack ::
  "'f Q0_AVX \<Rightarrow> int \<Rightarrow> int \<Rightarrow> int \<Rightarrow> int \<Rightarrow> (cell \<times> 'f) list option" where
  "Q0_mnpack Q m0 m n0 n =
     (case mnpack_switch (q_cf Q) (push_bit 4 (min (m - m0) 4) OR min (n - n0) 4) of
        None \<Rightarrow> Some []
      | Some (mc, nc, kern) \<Rightarrow>
          let ws = mnpack_call Q kern mc nc m0 m n0 n;
              mp = m0 + (m - m0) div mc * mc;
              np = n0 + (n - n0) div nc * nc
          in Option.bind (Q0_mnpack Q mp m n0 np) (\<lambda>ws1.
             Option.bind (Q0_mnpack Q m0 m np n) (\<lambda>ws2.
             Some (ws @ ws1 @ ws2))))"

declare Q0_mnpack.simps [code]

text \<open>\<^verbatim>\<open>tinyBLAS_Q0_AVX::matmul(m, n)\<close>.\<close>

definition Q0_matmul :: "'f Q0_AVX \<Rightarrow> int \<Rightarrow> int \<Rightarrow> (cell \<times> 'f) list option" where
  "Q0_matmul Q m n = Q0_mnpack Q 0 m 0 n"


subsection \<open>The entry point\<close>

text \<open>
  What a call of \<^verbatim>\<open>llamafile_sgemm\<close> instantiates: the floating-point engine
  \<^verbatim>\<open>tinyBLAS<KN, ...>\<close>, past the prologue of \<^verbatim>\<open>gemm\<close> with its constants, or the quantised
  engine \<^verbatim>\<open>tinyBLAS_Q0_AVX<TA, TB, float>\<close>.
\<close>

datatype kernel = Float_kernel int gemm_consts | Quant_kernel ggml_type ggml_type

text \<open>\<^verbatim>\<open>tinyBLAS<KN, ...> tb{params, k, ...}; return tb.matmul(m, n);\<close>\<close>

definition run_tinyBLAS ::
  "config \<Rightarrow> int \<Rightarrow> int \<Rightarrow> int \<Rightarrow> int \<Rightarrow> int \<Rightarrow> int \<Rightarrow> error + kernel option" where
  "run_tinyBLAS cf KN k ith nthreads m n =
     bind_err (tinyBLAS_matmul (VECTOR_REGISTERS cf = 32) KN k ith nthreads m n)
       (\<lambda>r. Inr (map_option (Float_kernel KN) r))"

text \<open>
  \<^verbatim>\<open>llamafile_sgemm\<close> for the worker \<open>ith\<close> of \<open>nthreads\<close>, up to the point where an engine
  starts to work on \<open>C\<close>: \<open>Inr None\<close> is \<^verbatim>\<open>return false\<close>, \<open>Inr (Some kern)\<close> the engine whose
  run ends in \<^verbatim>\<open>return true\<close>.  The assertions at the top of the function are the
  preconditions of the theorems below.
\<close>

definition llamafile_sgemm ::
  "config \<Rightarrow> int \<Rightarrow> int \<Rightarrow> int \<Rightarrow> int \<Rightarrow> int \<Rightarrow> ggml_type \<Rightarrow> ggml_type \<Rightarrow> ggml_type
     \<Rightarrow> error + kernel option" where
  "llamafile_sgemm cf ith nthreads m n k Atype Btype Ctype =
     (if n < 2 then Inr None
      else if Ctype \<noteq> GGML_TYPE_F32 then Inr None
      else case Atype of
        GGML_TYPE_F32 \<Rightarrow>
          if Btype \<noteq> GGML_TYPE_F32 then Inr None
          else if AVX512F cf then run_tinyBLAS cf 16 k ith nthreads m n
          else if AVX cf \<or> AVX2 cf then run_tinyBLAS cf 8 k ith nthreads m n
          else if VXE cf then
            (if n < 4 then Inr None else run_tinyBLAS cf 4 k ith nthreads m n)
          else Inr None
      | GGML_TYPE_BF16 \<Rightarrow>
          if AVX512BF16 cf then
            (if Btype = GGML_TYPE_BF16 then run_tinyBLAS cf 32 k ith nthreads m n else Inr None)
          else if AVX512F cf then
            (if Btype = GGML_TYPE_BF16 then run_tinyBLAS cf 16 k ith nthreads m n else Inr None)
          else if AVX2 cf then
            (if Btype = GGML_TYPE_BF16 then run_tinyBLAS cf 8 k ith nthreads m n else Inr None)
          else Inr None
      | GGML_TYPE_F16 \<Rightarrow>
          if AVX512F cf then
            (if Btype = GGML_TYPE_F16 then run_tinyBLAS cf 16 k ith nthreads m n else Inr None)
          else if (AVX cf \<or> AVX2 cf) \<and> F16C cf then
            (if Btype = GGML_TYPE_F16 then run_tinyBLAS cf 8 k ith nthreads m n else Inr None)
          else if VXE cf then
            (if n < 4 then Inr None
             else if Btype = GGML_TYPE_F16 then run_tinyBLAS cf 4 k ith nthreads m n
             else Inr None)
          else Inr None
      | GGML_TYPE_Q8_0 \<Rightarrow>
          if Btype \<noteq> GGML_TYPE_Q8_0 then Inr None
          else if AVX2 cf \<or> AVX512F cf \<or> AVX cf
            then Inr (Some (Quant_kernel GGML_TYPE_Q8_0 GGML_TYPE_Q8_0))
          else Inr None
      | GGML_TYPE_Q4_0 \<Rightarrow>
          if Btype \<noteq> GGML_TYPE_Q8_0 then Inr None
          else if AVX2 cf \<or> AVX512F cf \<or> AVX cf
            then Inr (Some (Quant_kernel GGML_TYPE_Q4_0 GGML_TYPE_Q8_0))
          else Inr None
      | GGML_TYPE_Q5_0 \<Rightarrow>
          if Btype \<noteq> GGML_TYPE_Q8_0 then Inr None
          else if AVX2 cf \<or> AVX512F cf \<or> AVX cf
            then Inr (Some (Quant_kernel GGML_TYPE_Q5_0 GGML_TYPE_Q8_0))
          else Inr None
      | GGML_TYPE_IQ4_NL \<Rightarrow>
          if Btype \<noteq> GGML_TYPE_Q8_0 then Inr None
          else if AVX2 cf \<or> AVX512F cf \<or> AVX cf
            then Inr (Some (Quant_kernel GGML_TYPE_IQ4_NL GGML_TYPE_Q8_0))
          else Inr None
      | GGML_TYPE_OTHER \<Rightarrow> Inr None)"

subsection \<open>The worker pool\<close>

text \<open>
  The arguments that all workers of one matmul pass to the entry point, with what the
  operands hold: \<open>c_vops\<close> for the floating-point engine (what \<^verbatim>\<open>load<V>\<close> reads from \<open>A\<close> and
  \<open>B\<close>), \<open>c_A\<close> and \<open>c_B\<close> for the quantised engine.
\<close>

record ('v, 'd, 'f) call =
  c_cf :: config
  c_m :: int
  c_n :: int
  c_k :: int
  c_lda :: int
  c_ldb :: int
  c_ldc :: int
  c_Atype :: ggml_type
  c_Btype :: ggml_type
  c_Ctype :: ggml_type
  c_vops :: "('v, 'd, 'f) vec_ops"
  c_fops :: "'f float_ops"
  c_A :: "int \<Rightarrow> block"
  c_B :: "int \<Rightarrow> block"

text \<open>
  Where a worker is: not yet in the entry point; at the barrier that opens the job loop of
  \<^verbatim>\<open>tinyBLAS::gemm\<close>; in the loop, holding \<^verbatim>\<open>job\<close>; at the barrier that closes it; back from
  the entry point with its result; or stopped by an error.
\<close>

datatype wstate =
  Entered
| At_barrier int gemm_consts
| In_gemm int gemm_consts int
| At_end
| Returned bool
| Aborted error

text \<open>The state shared by the workers: the chunk counter of the thread pool, every
  worker's place, and the writes to \<open>C\<close> so far, oldest first.\<close>

record 'f pool =
  chunk :: int
  workers :: "wstate list"
  written :: "(cell \<times> 'f) list"

text \<open>
  Modelled from the spec: \<^verbatim>\<open>ggml_threadpool_chunk_set\<close>, \<^verbatim>\<open>ggml_threadpool_chunk_add\<close> and
  \<^verbatim>\<open>ggml_barrier\<close> are declared only.  \<open>chunk_set\<close> stores the counter, \<open>chunk_add\<close> is a
  fetch-and-add that returns the previous value, and a barrier lets a worker pass once
  every worker has reached it.
\<close>

definition ggml_threadpool_chunk_set :: "int \<Rightarrow> 'f pool \<Rightarrow> 'f pool" where
  "ggml_threadpool_chunk_set v s = s\<lparr>chunk := v\<rparr>"

definition ggml_threadpool_chunk_add :: "int \<Rightarrow> 'f pool \<Rightarrow> int \<times> 'f pool" where
  "ggml_threadpool_chunk_add v s = (chunk s, s\<lparr>chunk := chunk s + v\<rparr>)"

definition before_open :: "wstate \<Rightarrow> bool" where
  "before_open x = (x = Entered)"

definition before_close :: "wstate \<Rightarrow> bool" where
  "before_close x =
     (case x of Entered \<Rightarrow> True | At_barrier KN gc \<Rightarrow> True | In_gemm KN gc job \<Rightarrow> True
      | _ \<Rightarrow> False)"

definition set_worker :: "nat \<Rightarrow> wstate \<Rightarrow> 'f pool \<Rightarrow> 'f pool" where
  "set_worker w x s = s\<lparr>workers := (workers s)[w := x]\<rparr>"

definition Q0_of_call :: "('v, 'd, 'f) call \<Rightarrow> ggml_type \<Rightarrow> ggml_type \<Rightarrow> int \<Rightarrow> int \<Rightarrow> 'f Q0_AVX" where
  "Q0_of_call c TA TB ith nthreads =
     \<lparr>q_cf = c_cf c, q_fo = c_fops c, q_TA = TA, q_TB = TB, q_A = c_A c, q_B = c_B c,
      q_k = c_k c, q_lda = c_lda c, q_ldb = c_ldb c, q_ldc = c_ldc c,
      q_ith = ith, q_nth = nthreads\<rparr>"

text \<open>
  One atomic step of worker \<open>w\<close>.  From \<open>Entered\<close> it runs the entry point: a \<^verbatim>\<open>return false\<close>,
  the whole quantised matmul (which shares nothing with the other workers), or the
  prologue of \<^verbatim>\<open>tinyBLAS::gemm\<close>, where thread 0 sets the chunk counter.  In the job loop a
  step is one iteration: the job's blocks, then the fetch of the next job.
\<close>

definition worker_step :: "('v, 'd, 'f) call \<Rightarrow> nat \<Rightarrow> 'f pool \<Rightarrow> 'f pool" where
  "worker_step c w s =
     (if w \<ge> length (workers s) then s
      else
        let nthreads = int (length (workers s)) in
        case workers s ! w of
          Entered \<Rightarrow>
            (case llamafile_sgemm (c_cf c) (int w) nthreads (c_m c) (c_n c) (c_k c)
                    (c_Atype c) (c_Btype c) (c_Ctype c) of
               Inl e \<Rightarrow> set_worker w (Aborted e) s
             | Inr None \<Rightarrow> set_worker w (Returned False) s
             | Inr (Some (Quant_kernel TA TB)) \<Rightarrow>
                 (case Q0_matmul (Q0_of_call c TA TB (int w) nthreads) (c_m c) (c_n c) of
                    None \<Rightarrow> set_worker w (Aborted Nontermination) s
                  | Some ws \<Rightarrow> set_worker w (Returned True) (s\<lparr>written := written s @ ws\<rparr>))
             | Inr (Some (Float_kernel KN gc)) \<Rightarrow>
                 set_worker w (At_barrier KN gc)
                   (if int w = 0 then ggml_threadpool_chunk_set nthreads s else s))
        | At_barrier KN gc \<Rightarrow>
            if \<exists>x \<in> set (workers s). before_open x then s
            else set_worker w (In_gemm KN gc (int w)) s
        | In_gemm KN gc job \<Rightarrow>
            if job < nb_job gc then
              (case gemm_job (c_vops c) KN (c_k c) (c_lda c) (c_ldb c) gc job of
                 Inl e \<Rightarrow> set_worker w (Aborted e) s
               | Inr ws \<Rightarrow>
                   let (job', s') = ggml_threadpool_chunk_add 1 (s\<lparr>written := written s @ ws\<rparr>)
                   in set_worker w (In_gemm KN gc job') s')
            else set_worker w At_end s
        | At_end \<Rightarrow>
            if \<exists>x \<in> set (workers s). before_close x then s
            else set_worker w (Returned True) s
        | Returned b \<Rightarrow> s
        | Aborted e \<Rightarrow> s)"

text \<open>A schedule is the order in which the workers take their steps.\<close>

definition run_pool :: "('v, 'd, 'f) call \<Rightarrow> nat list \<Rightarrow> 'f pool \<Rightarrow> 'f pool" where
  "run_pool c sched s = fold (worker_step c) sched s"

text \<open>All \<open>nthreads\<close> workers about to call the entry point; the chunk counter holds whatever
  the last use of the pool left there.\<close>

definition init_pool :: "nat \<Rightarrow> int \<Rightarrow> 'f pool" where
  "init_pool nthreads c0 = \<lparr>chunk = c0, workers = replicate nthreads Entered, written = []\<rparr>"

definition all_returned :: "bool \<Rightarrow> 'f pool \<Rightarrow> bool" where
  "all_returned b s = (\<forall>x \<in> set (workers s). x = Returned b)"

text \<open>The contents of \<open>C\<close> after the writes \<open>ws\<close>, from the contents \<open>C0\<close> before.\<close>

definition store_C :: "int \<Rightarrow> (cell \<times> 'f) list \<Rightarrow> (int \<Rightarrow> 'f) \<Rightarrow> (int \<Rightarrow> 'f)" where
  "store_C ldc ws C0 = fold (\<lambda>(c, v) C. C(C_index ldc c := v)) ws C0"


subsection \<open>Cells, plans and invariants\<close>

text \<open>
  The vocabulary of the proofs about the job scheme.  The cells of the tile that
  \<^verbatim>\<open>gemm_bloc<RM, RN>(ii, jj)\<close> writes, in the order of its closing loops, and the cells of \<open>c\<close>
  tiles side by side from column \<open>a\<close>.
\<close>

definition tile_cells :: "int \<Rightarrow> int \<Rightarrow> int \<Rightarrow> int \<Rightarrow> cell list" where
  "tile_cells rm rn ii jj = concat (map (\<lambda>j. map (\<lambda>i. (ii + i, jj + j)) [0..rm - 1]) [0..rn - 1])"

definition strip_cells :: "int \<Rightarrow> int \<Rightarrow> int \<Rightarrow> int \<Rightarrow> nat \<Rightarrow> cell list" where
  "strip_cells rm step row a c = concat (map (\<lambda>t. tile_cells rm step row (a + int t * step)) [0..<c])"

definition row_cells :: "int \<Rightarrow> int \<Rightarrow> int \<Rightarrow> int \<Rightarrow> nat \<Rightarrow> nat \<Rightarrow> cell list" where
  "row_cells rm rn row jj0 c1 c2 =
     strip_cells rm rn row jj0 c1 @ strip_cells rm (rn - 1) row (jj0 + int c1 * rn) c2"

text \<open>
  The value that the floating-point engine stores in a cell: the accumulator after the
  steps \<open>l = 0, KN, 2 KN, \<dots>\<close> of the \<open>l\<close> loop, summed by \<^verbatim>\<open>hsum\<close>.  It depends on the cell and on
  the operands only.
\<close>

definition k_steps :: "int \<Rightarrow> int \<Rightarrow> int list" where
  "k_steps KN k = map (\<lambda>t. int t * KN) [0..<nat (k div KN)]"

definition cell_value :: "('v, 'd, 'f) vec_ops \<Rightarrow> int \<Rightarrow> int \<Rightarrow> int \<Rightarrow> int \<Rightarrow> cell \<Rightarrow> 'f" where
  "cell_value ops KN k lda ldb c =
     vhsum ops (fold (\<lambda>l acc. vmadd ops (vload_A ops (lda * fst c + l))
                                           (vload_B ops (ldb * snd c + l)) acc)
                     (k_steps KN k) (vzero ops))"

definition valued :: "('v, 'd, 'f) vec_ops \<Rightarrow> int \<Rightarrow> int \<Rightarrow> int \<Rightarrow> int \<Rightarrow> cell list \<Rightarrow> (cell \<times> 'f) list" where
  "valued ops KN k lda ldb cs = map (\<lambda>c. (c, cell_value ops KN k lda ldb c)) cs"

text \<open>
  The first column of stripe \<open>b\<close> of column tiles, and the rectangle of cells of a job:
  \<open>RM * BM\<close> rows from \<open>ii\<close> and the columns of the job's stripe.
\<close>

definition col_start :: "gemm_consts \<Rightarrow> int \<Rightarrow> int" where
  "col_start gc b = BLOC_POS (BLOC_POS b (jj_BN gc) (SIZE_BN gc)) (jj_RN gc) (RN gc)"

definition job_rect :: "gemm_consts \<Rightarrow> int \<Rightarrow> cell set" where
  "job_rect gc job =
     {job mod ytiles gc * RM gc * BM gc ..< job mod ytiles gc * RM gc * BM gc + BM gc * RM gc}
       \<times> {col_start gc (job div ytiles gc) ..< col_start gc (job div ytiles gc + 1)}"

text \<open>
  The constants of \<^verbatim>\<open>gemm<RM, RN, BM>(m, n, BN)\<close> written out, and what the proofs use of
  them.
\<close>

definition gemm_plan :: "int \<Rightarrow> int \<Rightarrow> int \<Rightarrow> int \<Rightarrow> int \<Rightarrow> int \<Rightarrow> gemm_consts" where
  "gemm_plan rm rn bm m n BN =
     (let xt = (n + rn - 1) div rn;
          NB = gemm_NB_BN xt BN;
          SZ = gemm_SIZE_BN xt NB
      in \<lparr>RM = rm, RN = rn, BM = bm, ytiles = m div (rm * bm), xtiles = xt,
          jj_RN = xt - (xt * rn - n), NB_BN = NB, SIZE_BN = SZ,
          jj_BN = gemm_jj_BN xt NB SZ, nb_job = m div (rm * bm) * NB\<rparr>)"

definition float_plan :: "gemm_consts \<Rightarrow> int \<Rightarrow> int \<Rightarrow> bool" where
  "float_plan gc m n =
     (0 < RM gc \<and> 1 \<le> BM gc \<and> 1 \<le> RN gc \<and> 1 \<le> SIZE_BN gc \<and> 0 \<le> NB_BN gc
      \<and> 0 \<le> ytiles gc \<and> ytiles gc * (RM gc * BM gc) = m
      \<and> nb_job gc = ytiles gc * NB_BN gc
      \<and> col_start gc 0 = 0 \<and> col_start gc (NB_BN gc) = n)"

text \<open>
  What the entry point decides, as a function of the worker: \<^verbatim>\<open>return false\<close> for every
  worker, the quantised engine for every worker, or the floating-point engine with the
  same constants for every worker.
\<close>

definition decided :: "int \<Rightarrow> int \<Rightarrow> int \<Rightarrow> (int \<Rightarrow> error + kernel option) \<Rightarrow> bool" where
  "decided m n k F =
     ((\<forall>ith. F ith = Inr None)
      \<or> (\<exists>TA TB. \<forall>ith. F ith = Inr (Some (Quant_kernel TA TB)))
      \<or> (\<exists>KN gc. 0 < KN \<and> k mod KN = 0 \<and> float_plan gc m n
             \<and> (\<forall>ith. F ith = Inr (Some (Float_kernel KN gc)))))"

definition kernel_tag :: "kernel \<Rightarrow> int + ggml_type \<times> ggml_type" where
  "kernel_tag r = (case r of Float_kernel KN gc \<Rightarrow> Inl KN | Quant_kernel TA TB \<Rightarrow> Inr (TA, TB))"

definition same_tag :: "(int \<times> int \<Rightarrow> error + kernel option) \<Rightarrow> bool" where
  "same_tag G = (\<exists>T. \<forall>x r. G x = Inr (Some r) \<longrightarrow> kernel_tag r = T)"

text \<open>
  The writes of a job that runs to its end, the jobs that the workers hold (a worker that
  has not passed the first barrier will start with the job of its own number), and the
  value of the chunk counter once thread 0 has set it.
\<close>

definition job_writes ::
  "('v, 'd, 'f) vec_ops \<Rightarrow> int \<Rightarrow> int \<Rightarrow> int \<Rightarrow> int \<Rightarrow> gemm_consts \<Rightarrow> int \<Rightarrow> (cell \<times> 'f) list" where
  "job_writes ops KN k lda ldb gc job =
     (case gemm_job ops KN k lda ldb gc job of Inl e \<Rightarrow> [] | Inr ws \<Rightarrow> ws)"

definition hold :: "nat \<Rightarrow> wstate \<Rightarrow> int multiset" where
  "hold w x =
     (case x of Entered \<Rightarrow> {#int w#} | At_barrier KN gc \<Rightarrow> {#int w#}
      | In_gemm KN gc job \<Rightarrow> {#job#} | _ \<Rightarrow> {#})"

definition held_but :: "nat set \<Rightarrow> wstate list \<Rightarrow> int multiset" where
  "held_but V xs = (\<Sum>w\<in>{..<length xs} - V. hold w (xs ! w))"

definition held :: "wstate list \<Rightarrow> int multiset" where
  "held xs = held_but {} xs"

definition eff_chunk :: "'f pool \<Rightarrow> int" where
  "eff_chunk s = (if workers s ! 0 = Entered then int (length (workers s)) else chunk s)"

text \<open>
  The invariant of a run of the floating-point engine: before the first barrier opens
  nothing is written; afterwards the writes are those of a list \<open>js\<close> of jobs, and the jobs
  done and held are the jobs below the counter, each once.
\<close>

definition float_inv :: "(int \<Rightarrow> (cell \<times> 'f) list) \<Rightarrow> int \<Rightarrow> gemm_consts \<Rightarrow> 'f pool \<Rightarrow> bool" where
  "float_inv W KN gc s =
     ((\<forall>x\<in>set (workers s). x = Entered \<or> x = At_barrier KN gc \<or> (\<exists>j. x = In_gemm KN gc j)
                               \<or> x = At_end \<or> x = Returned True)
      \<and> (Entered \<in> set (workers s) \<longrightarrow>
             (\<forall>x\<in>set (workers s). x = Entered \<or> x = At_barrier KN gc)
             \<and> written s = [] \<and> eff_chunk s = int (length (workers s)))
      \<and> int (length (workers s)) \<le> eff_chunk s
      \<and> (\<forall>j\<in>#held (workers s). 0 \<le> j \<and> j < eff_chunk s)
      \<and> (At_end \<in> set (workers s) \<or> Returned True \<in> set (workers s)
             \<longrightarrow> nb_job gc \<le> eff_chunk s)
      \<and> (\<exists>js. written s = concat (map W js)
               \<and> mset js + filter_mset (\<lambda>j. j < nb_job gc) (held (workers s))
                   = mset [0..min (eff_chunk s) (nb_job gc) - 1]))"

text \<open>The invariants of a run of the quantised engine and of a call that is refused.\<close>

definition quant_inv :: "(nat \<Rightarrow> (cell \<times> 'f) list) \<Rightarrow> 'f pool \<Rightarrow> bool" where
  "quant_inv Wq s =
     ((\<forall>x\<in>set (workers s). x = Entered \<or> x = Returned True)
      \<and> (\<exists>ord. distinct ord
             \<and> set ord = {w. w < length (workers s) \<and> workers s ! w = Returned True}
             \<and> written s = concat (map Wq ord)))"

definition idle_inv :: "'f pool \<Rightarrow> bool" where
  "idle_inv s = ((\<forall>x\<in>set (workers s). x = Entered \<or> x = Returned False) \<and> written s = [])"

subsection \<open>Exactness of the widening fallback\<close>

text \<open>
  The inputs on which \<^verbatim>\<open>pmaddubsw\<close> does not saturate: every sum of two adjacent products of
  an unsigned byte of \<open>u\<close> and a signed byte of \<open>s\<close> is a signed 16-bit number.
\<close>

definition maddubs_exact :: "u8 list \<Rightarrow> u8 list \<Rightarrow> bool" where
  "maddubs_exact u s =
     list_all (\<lambda>j. let p = uint (u ! (2 * j)) * sint (s ! (2 * j))
                           + uint (u ! (2 * j + 1)) * sint (s ! (2 * j + 1))
                  in - 32768 \<le> p \<and> p \<le> 32767)
              [0..<length u div 2]"

subsection \<open>Sample instances\<close>

text \<open>Concrete inputs on which the theorems below are instantiated: an AVX2 build with
  F16C and FMA, integers in the place of floats, and small operands.\<close>

definition sample_cf :: config where
  "sample_cf = \<lparr>AVX512F = False, AVX = True, AVX2 = True, F16C = True, FMA = True,
                 AVX512BF16 = False, AVX512VNNI = False, AVX512VL = False, AVXVNNI = False,
                 VXE = False, ARM_NEON = False\<rparr>"

definition sample_fo :: "int float_ops" where
  "sample_fo = \<lparr>unhalf = uint, cvtph = uint, fadd = (+), fmul = (*),
                 ffma = (\<lambda>a b c. a * b + c), i2f = sint, fzero = 0\<rparr>"

definition sample_block :: "int \<Rightarrow> block" where
  "sample_block i = \<lparr>d = word_of_int (i + 1), qh = [1, 2, 3, 4],
                      qs = map (\<lambda>j. word_of_int (i + int j)) [0..<32]\<rparr>"

definition sample_q5 :: block where
  "sample_q5 = \<lparr>d = 1, qh = [1, 2, 3, 4], qs = map (\<lambda>j. word_of_int (250 + int j)) [0..<16]\<rparr>"

definition sample_Q :: "int Q0_AVX" where
  "sample_Q = \<lparr>q_cf = sample_cf, q_fo = sample_fo, q_TA = GGML_TYPE_Q8_0, q_TB = GGML_TYPE_Q8_0,
                q_A = sample_block, q_B = sample_block, q_k = 1, q_lda = 1, q_ldb = 1, q_ldc = 5,
                q_ith = 0, q_nth = 1\<rparr>"

text \<open>A call on the floating-point path: \<open>C\<close> is 4 by 2, \<open>k = 8\<close>, integers in the place of
  vectors and floats.\<close>

definition sample_ops :: "(int, int, int) vec_ops" where
  "sample_ops = \<lparr>vload_A = (\<lambda>off. off + 1), vload_B = (\<lambda>off. 2 * off + 1),
                  vmadd = (\<lambda>a b acc. a * b + acc), vhsum = (\<lambda>acc. acc), vzero = 0\<rparr>"

definition sample_call :: "(int, int, int) call" where
  "sample_call = \<lparr>c_cf = sample_cf, c_m = 4, c_n = 2, c_k = 8, c_lda = 8, c_ldb = 8, c_ldc = 4,
                   c_Atype = GGML_TYPE_F32, c_Btype = GGML_TYPE_F32, c_Ctype = GGML_TYPE_F32,
                   c_vops = sample_ops, c_fops = sample_fo, c_A = sample_block, c_B = sample_block\<rparr>"

section \<open>Properties\<close>

subsection \<open>Block sizes and the prologue of the floating-point gemm\<close>

lemma gemm_stripe_identity:
  "gemm_jj_BN xt NB SZ * SZ + (NB - gemm_jj_BN xt NB SZ) * (SZ - 1) = xt"
  by (simp add: gemm_jj_BN_def algebra_simps)

lemma gemm_NB_BN_pos:
  assumes "1 \<le> BN" "0 \<le> xt"
  shows "1 \<le> gemm_NB_BN xt BN"
proof (cases "xt < BN")
  case True
  then show ?thesis by (simp add: gemm_NB_BN_def)
next
  case False
  have "0 \<le> BN div 2" using assms by simp
  then have "BN \<le> xt + BN div 2" using False by linarith
  then have "BN div BN \<le> (xt + BN div 2) div BN" using assms by (intro zdiv_mono1) auto
  then show ?thesis using False assms by (simp add: gemm_NB_BN_def)
qed

lemma ceil_div_le:
  fixes n NB M :: int
  assumes "1 \<le> NB" "n \<le> NB * M"
  shows "(if n mod NB = 0 then n div NB else n div NB + 1) \<le> M"
proof -
  have le: "n div NB \<le> M"
    using zdiv_mono1[of n "NB * M" NB] assms by simp
  show ?thesis
  proof (cases "n mod NB = 0")
    case True
    then show ?thesis using le by simp
  next
    case False
    have "n div NB \<noteq> M"
    proof
      assume e: "n div NB = M"
      have "n = NB * (n div NB) + n mod NB" by simp
      moreover have "0 < n mod NB"
        using False assms pos_mod_sign[of NB n] by (simp add: less_le)
      ultimately have "n > NB * M" using e by simp
      then show False using assms by simp
    qed
    then show ?thesis using le False by simp
  qed
qed

lemma ceil_div_ge1:
  fixes n NB :: int
  assumes "1 \<le> NB" "1 \<le> n"
  shows "1 \<le> (if n mod NB = 0 then n div NB else n div NB + 1)"
proof (cases "n mod NB = 0")
  case True
  then have "n = NB * (n div NB)" by auto
  then have "0 < NB * (n div NB)" using assms by simp
  then have "0 < n div NB" using assms by (simp add: zero_less_mult_iff)
  then show ?thesis using True by simp
next
  case False
  have "0 \<le> n div NB" using assms by (simp add: pos_imp_zdiv_nonneg_iff)
  then show ?thesis using False by simp
qed

lemma ceil_div_eq:
  fixes n NB :: int
  assumes "1 \<le> NB"
  shows "(if n mod NB = 0 then n div NB else n div NB + 1) = (n + NB - 1) div NB"
proof -
  have dm: "n = NB * (n div NB) + n mod NB" by simp
  have r: "0 \<le> n mod NB" "n mod NB < NB" using assms by simp_all
  show ?thesis
  proof (cases "n mod NB = 0")
    case True
    have "n + NB - 1 = NB * (n div NB) + (NB - 1)" using dm True by simp
    then have "(n + NB - 1) div NB = n div NB"
      by (rule int_div_pos_eq) (use assms in simp_all)
    then show ?thesis using True by simp
  next
    case False
    then have pos: "1 \<le> n mod NB" using r by simp
    have "n + NB - 1 = NB * (n div NB + 1) + (n mod NB - 1)"
      using dm by (simp add: algebra_simps)
    then have "(n + NB - 1) div NB = n div NB + 1"
      by (rule int_div_pos_eq) (use pos r in simp_all)
    then show ?thesis using False by simp
  qed
qed

lemma NB_BLOC_bounds:
  fixes n M :: int
  assumes "1 \<le> n" "1 \<le> M"
  shows "1 \<le> (n + M - 1) div M" "n \<le> (n + M - 1) div M * M"
proof -
  have "M div M \<le> (n + M - 1) div M" using assms by (intro zdiv_mono1) auto
  then show "1 \<le> (n + M - 1) div M" using assms by simp
  have "(n + M - 1) = (n + M - 1) div M * M + (n + M - 1) mod M" by simp
  moreover have "(n + M - 1) mod M < M" using assms by simp
  ultimately show "n \<le> (n + M - 1) div M * M" by linarith
qed

lemma BLOCK_SIZE_range:
  assumes "1 \<le> n" "1 \<le> M"
  shows "\<exists>s. BLOCK_SIZE M n = Inr s \<and> 1 \<le> s \<and> s \<le> M"
proof -
  let ?NB = "(n + M - 1) div M"
  have nb: "1 \<le> ?NB" "n \<le> ?NB * M" using NB_BLOC_bounds[OF assms] by auto
  have a: "(if n mod ?NB = 0 then n div ?NB else n div ?NB + 1) \<le> M"
    using ceil_div_le[OF nb] .
  have b: "1 \<le> (if n mod ?NB = 0 then n div ?NB else n div ?NB + 1)"
    using ceil_div_ge1[OF nb(1) assms(1)] .
  show ?thesis using a b nb(1) unfolding BLOCK_SIZE_def Let_def by auto
qed




text \<open>
  C8.  For \<open>xtiles \<ge> 1\<close> and \<open>BN \<ge> 1\<close>, with \<open>NB_BN\<close>, \<open>SIZE_BN\<close> and \<open>jj_BN\<close> as \<^verbatim>\<open>gemm\<close> computes
  them: \<open>NB_BN \<ge> 1\<close>, \<open>SIZE_BN\<close> is the ceiling of \<open>xtiles / NB_BN\<close>, the stripe widths add up to
  \<open>xtiles\<close>, and the prologue of \<^verbatim>\<open>gemm\<close> on thread 0 passes its assertion and returns these
  constants.
\<close>

theorem gemm_stripes_tile_xtiles:
  assumes "1 \<le> xt" "1 \<le> BN" "1 \<le> rn" "(n + rn - 1) div rn = xt" "m mod (rm * bm) = 0"
  shows "1 \<le> gemm_NB_BN xt BN
       \<and> gemm_SIZE_BN xt (gemm_NB_BN xt BN) = (xt + gemm_NB_BN xt BN - 1) div gemm_NB_BN xt BN
       \<and> gemm_jj_BN xt (gemm_NB_BN xt BN) (gemm_SIZE_BN xt (gemm_NB_BN xt BN))
            * gemm_SIZE_BN xt (gemm_NB_BN xt BN)
          + (gemm_NB_BN xt BN
               - gemm_jj_BN xt (gemm_NB_BN xt BN) (gemm_SIZE_BN xt (gemm_NB_BN xt BN)))
            * (gemm_SIZE_BN xt (gemm_NB_BN xt BN) - 1) = xt
       \<and> (\<exists>gc. tinyBLAS_gemm rm rn bm 0 m n BN = Inr gc \<and> xtiles gc = xt
              \<and> NB_BN gc = gemm_NB_BN xt BN
              \<and> SIZE_BN gc = gemm_SIZE_BN xt (gemm_NB_BN xt BN)
              \<and> jj_BN gc = gemm_jj_BN xt (gemm_NB_BN xt BN) (gemm_SIZE_BN xt (gemm_NB_BN xt BN)))"
proof -
  have nb: "1 \<le> gemm_NB_BN xt BN" using gemm_NB_BN_pos[of BN xt] assms by simp
  have sz: "gemm_SIZE_BN xt (gemm_NB_BN xt BN)
              = (xt + gemm_NB_BN xt BN - 1) div gemm_NB_BN xt BN"
    unfolding gemm_SIZE_BN_def using ceil_div_eq[OF nb] .
  have g: "\<exists>gc. tinyBLAS_gemm rm rn bm 0 m n BN = Inr gc \<and> xtiles gc = xt
              \<and> NB_BN gc = gemm_NB_BN xt BN
              \<and> SIZE_BN gc = gemm_SIZE_BN xt (gemm_NB_BN xt BN)
              \<and> jj_BN gc = gemm_jj_BN xt (gemm_NB_BN xt BN) (gemm_SIZE_BN xt (gemm_NB_BN xt BN))"
    unfolding tinyBLAS_gemm_def Let_def using assms nb
    by (simp add: gemm_stripe_identity)
  show ?thesis using nb sz g gemm_stripe_identity by blast
qed

theorem gemm_stripes_tile_xtiles_witness:
  "gemm_jj_BN 5 (gemm_NB_BN 5 2) (gemm_SIZE_BN 5 (gemm_NB_BN 5 2)) = 2
   \<and> gemm_SIZE_BN 5 (gemm_NB_BN 5 2) = 2 \<and> gemm_NB_BN 5 2 = 3
   \<and> (\<exists>gc. tinyBLAS_gemm 4 3 1 0 8 13 2 = Inr gc \<and> xtiles gc = 5 \<and> NB_BN gc = 3)"
proof -
  have e: "gemm_NB_BN 5 2 = 3" "gemm_SIZE_BN 5 3 = 2" "gemm_jj_BN 5 3 2 = 2"
    by (simp_all add: gemm_NB_BN_def gemm_SIZE_BN_def gemm_jj_BN_def)
  have h: "(1::int) \<le> 5" "(1::int) \<le> 2" "(1::int) \<le> 3" "((13::int) + 3 - 1) div 3 = 5"
    "(8::int) mod (4 * 1) = 0"
    by simp_all
  from gemm_stripes_tile_xtiles[OF h] show ?thesis by (auto simp: e)
qed

subsection \<open>The floating-point matmul returns\<close>


subsection \<open>The quantised partitioner returns\<close>

lemma small_cases:
  fixes a :: int assumes "0 \<le> a" "a \<le> 4"
  shows "a = 0 \<or> a = 1 \<or> a = 2 \<or> a = 3 \<or> a = 4"
  using assms by arith

lemma mnpack_switch_cases:
  assumes "0 \<le> a" "a \<le> 4" "0 \<le> b" "b \<le> 4"
  shows "case mnpack_switch cf (push_bit 4 a OR b) of
           None \<Rightarrow> a = 0 \<or> b = 0
         | Some (mc, nc, kern) \<Rightarrow> 1 \<le> mc \<and> mc \<le> a \<and> 1 \<le> nc \<and> nc \<le> b"
proof -
  from small_cases[OF assms(1,2)] small_cases[OF assms(3,4)]
  show ?thesis
    by (elim disjE) (simp_all add: mnpack_switch_def Let_def)
qed

lemma tile_floor:
  fixes x c :: int
  assumes "1 \<le> c" "c \<le> x"
  shows "0 < x div c * c" "x div c * c \<le> x"
proof -
  have "c div c \<le> x div c" using assms by (intro zdiv_mono1) auto
  then have "1 \<le> x div c" using assms by simp
  then show "0 < x div c * c" using assms by (simp add: zero_less_mult_iff)
  have "x = x div c * c + x mod c" by simp
  moreover have "0 \<le> x mod c" using assms by simp
  ultimately show "x div c * c \<le> x" by linarith
qed

lemma Q0_mnpack_terminates:
  assumes "m0 \<le> m" "n0 \<le> n"
  shows "\<exists>ws. Q0_mnpack Q m0 m n0 n = Some ws"
  using assms
proof (induction "nat ((m - m0) + (n - n0))" arbitrary: m0 n0 m n rule: less_induct)
  case less
  let ?a = "min (m - m0) 4" and ?b = "min (n - n0) 4"
  have ab: "0 \<le> ?a" "?a \<le> 4" "0 \<le> ?b" "?b \<le> 4" using less.prems by simp_all
  note sw = mnpack_switch_cases[OF ab, of "q_cf Q"]
  show ?case
  proof (cases "mnpack_switch (q_cf Q) (push_bit 4 ?a OR ?b)")
    case None
    then show ?thesis by (subst Q0_mnpack.simps) simp
  next
    case (Some t)
    obtain mc nc kern where t: "t = (mc, nc, kern)" by (cases t) auto
    from sw Some t have c: "1 \<le> mc" "mc \<le> m - m0" "1 \<le> nc" "nc \<le> n - n0" by auto
    let ?mp = "m0 + (m - m0) div mc * mc" and ?np = "n0 + (n - n0) div nc * nc"
    have mp: "m0 < ?mp" "?mp \<le> m" using tile_floor[OF c(1,2)] by auto
    have np: "n0 < ?np" "?np \<le> n" using tile_floor[OF c(3,4)] by auto
    have "\<exists>ws1. Q0_mnpack Q ?mp m n0 ?np = Some ws1"
      using mp np less.prems by (intro less.hyps) auto
    moreover have "\<exists>ws2. Q0_mnpack Q m0 m ?np n = Some ws2"
      using mp np less.prems by (intro less.hyps) auto
    ultimately show ?thesis
      using Some t by (subst Q0_mnpack.simps) (auto simp: Let_def)
  qed
qed

text \<open>
  C10.  For \<open>0 \<le> m0 \<le> m\<close> and \<open>0 \<le> n0 \<le> n\<close> the call \<^verbatim>\<open>mnpack(m0, m, n0, n)\<close> returns.  The
  switch takes its default case exactly when \<open>m - m0 = 0\<close> or \<open>n - n0 = 0\<close>, and then the call
  returns at once with no write; in every other case both recursive calls are on regions
  with a strictly smaller \<open>(m - m0) + (n - n0)\<close>.
\<close>

theorem Q0_mnpack_returns:
  assumes "0 \<le> m0" "m0 \<le> m" "0 \<le> n0" "n0 \<le> n"
  shows "(\<exists>ws. Q0_mnpack Q m0 m n0 n = Some ws)
       \<and> (case mnpack_switch (q_cf Q) (push_bit 4 (min (m - m0) 4) OR min (n - n0) 4) of
            None \<Rightarrow> (m - m0 = 0 \<or> n - n0 = 0) \<and> Q0_mnpack Q m0 m n0 n = Some []
          | Some (mc, nc, kern) \<Rightarrow>
              m - m0 \<noteq> 0 \<and> n - n0 \<noteq> 0
              \<and> (m - (m0 + (m - m0) div mc * mc)) + ((n0 + (n - n0) div nc * nc) - n0)
                  < (m - m0) + (n - n0)
              \<and> (m - m0) + (n - (n0 + (n - n0) div nc * nc)) < (m - m0) + (n - n0))"
proof -
  let ?a = "min (m - m0) 4" and ?b = "min (n - n0) 4"
  have ab: "0 \<le> ?a" "?a \<le> 4" "0 \<le> ?b" "?b \<le> 4" using assms by simp_all
  note sw = mnpack_switch_cases[OF ab, of "q_cf Q"]
  have 2: "case mnpack_switch (q_cf Q) (push_bit 4 ?a OR ?b) of
            None \<Rightarrow> (m - m0 = 0 \<or> n - n0 = 0) \<and> Q0_mnpack Q m0 m n0 n = Some []
          | Some (mc, nc, kern) \<Rightarrow>
              m - m0 \<noteq> 0 \<and> n - n0 \<noteq> 0
              \<and> (m - (m0 + (m - m0) div mc * mc)) + ((n0 + (n - n0) div nc * nc) - n0)
                  < (m - m0) + (n - n0)
              \<and> (m - m0) + (n - (n0 + (n - n0) div nc * nc)) < (m - m0) + (n - n0)"
  proof (cases "mnpack_switch (q_cf Q) (push_bit 4 ?a OR ?b)")
    case None
    have "Q0_mnpack Q m0 m n0 n = Some []" using None by (subst Q0_mnpack.simps) simp
    moreover have "m - m0 = 0 \<or> n - n0 = 0" using sw None by (auto simp: min_def split: if_splits)
    ultimately show ?thesis using None by simp
  next
    case (Some t)
    obtain mc nc kern where t: "t = (mc, nc, kern)" by (cases t) auto
    from sw Some t have c: "1 \<le> mc" "mc \<le> m - m0" "1 \<le> nc" "nc \<le> n - n0" by auto
    have mp: "0 < (m - m0) div mc * mc" "(m - m0) div mc * mc \<le> m - m0"
      using tile_floor[OF c(1,2)] by auto
    have np: "0 < (n - n0) div nc * nc" "(n - n0) div nc * nc \<le> n - n0"
      using tile_floor[OF c(3,4)] by auto
    show ?thesis using Some t c mp np by simp
  qed
  show ?thesis using Q0_mnpack_terminates[OF assms(2,4), of Q] 2 by blast
qed

theorem Q0_mnpack_returns_witness:
  "(\<exists>ws. Q0_mnpack sample_Q 0 5 0 3 = Some ws) \<and> Q0_mnpack sample_Q 5 5 0 3 = Some []"
proof -
  have h: "(0::int) \<le> 0" "(0::int) \<le> 5" "(5::int) \<le> 5" "(0::int) \<le> 3" by simp_all
  have sw: "mnpack_switch (q_cf sample_Q) 3 = None"
    by (simp add: mnpack_switch_def sample_Q_def)
  from Q0_mnpack_returns[OF h(1) h(2) h(1) h(4), of sample_Q]
       Q0_mnpack_returns[OF h(2) h(3) h(1) h(4), of sample_Q]
  show ?thesis by (simp add: sw)
qed

subsection \<open>The block decoders\<close>

lemma word8_eq_iff: "(a = (b::8 word)) = (\<forall>n<8. bit a n = bit b n)"
  by (auto intro: bit_word_eqI)

lemma all8: "(\<forall>n<8::nat. P n) = (P 0 \<and> P 1 \<and> P 2 \<and> P 3 \<and> P 4 \<and> P 5 \<and> P 6 \<and> P 7)"
  by (simp add: eval_nat_numeral All_less_Suc conj_ac)

lemma c1: "bytes_of_epi64 0x7fbfdfeff7fbfdfe = [0xfe,0xfd,0xfb,0xf7,0xef,0xdf,0xbf,0x7f]"
  by code_simp
lemma c2: "bytes_of_epi64 (- 1) = replicate 8 0xFF"
  by code_simp
lemma c3: "mm256_set_epi64x 0x0303030303030303 0x0202020202020202 0x0101010101010101 0x0000000000000000
  = replicate 8 0 @ replicate 8 1 @ replicate 8 2 @ replicate 8 3"
  by code_simp



lemma upt4: "[0..<4] = [0,1,2,3]" by code_simp
lemma upt8: "[0..<8] = [0,1,2,3,4,5,6,7]" by code_simp
lemma upt32: "[0..<32] = [0,1,2,3,4,5,6,7,8,9,10,11,12,13,14,15,16,17,18,19,20,21,22,23,24,25,26,27,28,29,30,31]" by code_simp

lemma b32: "bytes_of_epi32 (memcpy_u32 [p0, p1, p2, p3]) = [p0, p1, p2, p3]"
  unfolding bytes_of_epi32_def memcpy_u32_def
  apply (simp add: upt4)
  apply (intro conjI; rule bit_word_eqI; auto simp: bit_simps dest: bit_imp_le_length)
  done

lemma mask_bits:
  fixes p :: "8 word"
  shows "((0xFE OR p) = 0xFF) = bit p 0" "((0xFD OR p) = 0xFF) = bit p 1"
    "((0xFB OR p) = 0xFF) = bit p 2" "((0xF7 OR p) = 0xFF) = bit p 3"
    "((0xEF OR p) = 0xFF) = bit p 4" "((0xDF OR p) = 0xFF) = bit p 5"
    "((0xBF OR p) = 0xFF) = bit p 6" "((0x7F OR p) = 0xFF) = bit p 7"
  by (simp_all add: word8_eq_iff all8 bit_simps)

lemma hi_bit8 [simp]: "8 \<le> n \<Longrightarrow> bit (p :: 8 word) n = False"
  by (auto dest: bit_imp_le_length)

lemma x32_bits:
  "map (bit (memcpy_u32 [p0, p1, p2, p3])) [0..<32] = map (bit p0) [0..<8] @ map (bit p1) [0..<8] @ map (bit p2) [0..<8] @ map (bit p3) [0..<8]"
  unfolding memcpy_u32_def upt32 upt8
  by (simp add: bit_simps)



lemma rep8: "replicate 8 x = [x,x,x,x,x,x,x,x]"
  by (simp add: numeral_eq_Suc)

lemma idx_consts:
  "unat ((0::u8) AND 15) = 0" "unat ((1::u8) AND 15) = 1" "unat ((2::u8) AND 15) = 2" "unat ((3::u8) AND 15) = 3"
  "\<not> bit (0::u8) 7" "\<not> bit (1::u8) 7" "\<not> bit (2::u8) 7" "\<not> bit (3::u8) 7"
  by simp_all


lemma nth4: "(a0 # a1 # a2 # a3 # rest) ! 0 = a0" "(a0 # a1 # a2 # a3 # rest) ! 1 = a1"
  "(a0 # a1 # a2 # a3 # rest) ! 2 = a2" "(a0 # a1 # a2 # a3 # rest) ! 3 = a3"
  by (simp_all add: numeral_eq_Suc)

lemma sel_bytes:
  "mm_shuffle_epi8 (a0 # a1 # a2 # a3 # rest) (replicate 8 0 @ replicate 8 1) = replicate 8 a0 @ replicate 8 a1"
  "mm_shuffle_epi8 (a0 # a1 # a2 # a3 # rest) (replicate 8 2 @ replicate 8 3) = replicate 8 a2 @ replicate 8 a3"
  unfolding mm_shuffle_epi8_def rep8
  by (simp_all only: list.map map_append idx_consts nth4 if_False append.simps)


lemma group_mask:
  "map2 (\<lambda>x y. NOT x AND y)
     (map2 (\<lambda>x y. if x = y then 0xFF else 0) (replicate 8 0xFF)
        (map2 (OR) [0xfe,0xfd,0xfb,0xf7,0xef,0xdf,0xbf,0x7f] (replicate 8 (p::u8))))
     (replicate 8 0xF0)
   = map (\<lambda>b. if b then 0 else (0xF0::u8)) (map (bit p) [0..<8])"
  unfolding upt8 rep8
  by (simp add: mask_bits eq_commute[of "255::u8"])

lemma rep_split: "replicate 32 x = replicate 8 x @ replicate 8 x @ replicate 8 x @ replicate 8 x"
  "replicate 16 x = replicate 8 x @ replicate 8 x"
  by (simp_all flip: replicate_add)


lemma concat_rep: "concat (replicate 8 [a,b,c,e]) = [a,b,c,e] @ [a,b,c,e] @ [a,b,c,e] @ [a,b,c,e] @ [a,b,c,e] @ [a,b,c,e] @ [a,b,c,e] @ [a,b,c,e]"
  by (simp add: numeral_eq_Suc)

lemma sh: "mm256_shuffle_epi8 (mm256_set1_epi32 (memcpy_u32 [p0, p1, p2, p3]))
              (mm256_set_epi64x 0x0303030303030303 0x0202020202020202
                                0x0101010101010101 0x0000000000000000)
            = replicate 8 p0 @ replicate 8 p1 @ replicate 8 p2 @ replicate 8 p3"
proof -
  have t: "take 16 (concat (replicate 8 [p0,p1,p2,p3])) = p0 # p1 # p2 # p3 # (concat (replicate 3 [p0,p1,p2,p3]))"
     "drop 16 (concat (replicate 8 [p0,p1,p2,p3])) = p0 # p1 # p2 # p3 # (concat (replicate 3 [p0,p1,p2,p3]))"
    by (simp_all add: numeral_eq_Suc)
  have u: "take 16 (replicate 8 (0::u8) @ replicate 8 1 @ replicate 8 2 @ replicate 8 3) = replicate 8 0 @ replicate 8 1"
    "drop 16 (replicate 8 (0::u8) @ replicate 8 1 @ replicate 8 2 @ replicate 8 3) = replicate 8 2 @ replicate 8 3"
    by simp_all
  show ?thesis
    unfolding mm256_shuffle_epi8_def mm256_set1_epi32_def b32 c3 t u sel_bytes by simp
qed

lemma cc4: "concat (replicate 4 xs) = xs @ xs @ xs @ xs"
  by (simp add: numeral_eq_Suc)
lemma rep32: "replicate 32 x = [x,x,x,x,x,x,x,x,x,x,x,x,x,x,x,x,x,x,x,x,x,x,x,x,x,x,x,x,x,x,x,x]"
  by (simp add: numeral_eq_Suc)

lemma bittobyte_groups:
  "bittobyte [p0, p1, p2, p3]
        = map (\<lambda>b. if b then 0 else 0xF0) (map (bit p0) [0..<8])
        @ map (\<lambda>b. if b then 0 else 0xF0) (map (bit p1) [0..<8])
        @ map (\<lambda>b. if b then 0 else 0xF0) (map (bit p2) [0..<8])
        @ map (\<lambda>b. if b then 0 else 0xF0) (map (bit p3) [0..<8])"
    unfolding bittobyte_def Let_def sh mm256_set1_epi64x_def c1 c2 mm256_or_si256_def
      mm256_cmpeq_epi8_def mm256_andnot_si256_def mm256_set1_epi8_def cc4 rep8 rep32 upt8
    by (simp add: mask_bits eq_commute[of "255::u8"])

lemma bit15: "bit (15::int) n = (n < 4)"
proof -
  have "bit (mask 4 :: int) n = (n < 4)" by (auto simp: bit_mask_iff)
  moreover have "(mask 4 :: int) = 15" by (simp add: mask_eq_exp_minus_1)
  ultimately show ?thesis by simp
qed

lemma srli4_and15:
  "even (length x) \<Longrightarrow> map ((AND) 15) (mm_srli_epi16 x 4) = map (drop_bit 4) x"
  unfolding mm_srli_epi16_def
proof (induction x rule: epi16_of.induct)
  case (1 lo hi bs)
  have a: "(15::u8) AND ucast (drop_bit 4 (ucast lo OR push_bit 8 (ucast hi) :: 16 word))
             = drop_bit 4 lo"
    by (rule bit_word_eqI) (auto simp: bit_simps bit15 dest: bit_imp_le_length)
  have b: "(15::u8) AND ucast (drop_bit 8 (drop_bit 4 (ucast lo OR push_bit 8 (ucast hi) :: 16 word)))
             = drop_bit 4 hi"
    by (rule bit_word_eqI) (auto simp: bit_simps bit15 dest: bit_imp_le_length)
  from 1 show ?case using a b by (simp del: drop_bit_or drop_bit_drop_bit)
qed simp_all

lemma length_srli: "even (length x) \<Longrightarrow> length (mm_srli_epi16 x c) = length x"
  unfolding mm_srli_epi16_def
  by (induction x rule: epi16_of.induct) simp_all

lemma map2_replicate: "length xs \<le> n \<Longrightarrow> map2 f (replicate n c) xs = map (f c) xs"
  by (simp add: zip_replicate1 comp_def)

lemma denibble_eq:
  assumes "length p = 16"
  shows "denibble p = map ((AND) 15) p @ map (drop_bit 4) p"
proof -
  have e: "even (length p)" using assms by simp
  have l: "length (mm_srli_epi16 p 4) = 16" using length_srli[OF e] assms by simp
  have "denibble p = map ((AND) 15) (p @ mm_srli_epi16 p 4)"
    unfolding denibble_def Let_def mm_loadu_si128_def mm256_and_si256_def mm256_set1_epi8_def
      mm256_insertf128_cast_def
    using assms l by (subst map2_replicate) simp_all
  then show ?thesis using srli4_and15[OF e] by simp
qed

text \<open>
  C6.  For a q5_0 block (16 payload bytes, 4 bytes \<open>qh\<close>), lane \<open>i\<close> of \<^verbatim>\<open>load(block_q5_0)\<close> is
  the \<open>i\<close>-th nibble of the payload (low nibbles in lanes 0..15, high nibbles in lanes
  16..31) OR-ed with \<open>0xF0\<close> when bit \<open>i\<close> of the 32-bit \<open>qh\<close> is zero and with \<open>0x00\<close> when it
  is one.
\<close>

theorem load_q5_0_lanes:
  assumes "length (qs b) = 16" "length (qh b) = 4" "i < 32"
  shows "length (load_q5_0 b) = 32
       \<and> load_q5_0 b ! i
           = (if i < 16 then qs b ! i AND 15 else drop_bit 4 (qs b ! (i - 16)))
             OR (if bit (memcpy_u32 (qh b)) i then 0 else 0xF0)"
proof -
  obtain p0 p1 p2 p3 where qh: "qh b = [p0, p1, p2, p3]"
    using assms(2) by (auto simp: length_Suc_conv numeral_eq_Suc)
  let ?x = "memcpy_u32 (qh b)"
  have "map (\<lambda>i. if bit ?x i then 0 else (0xF0::u8)) [0..<32]
          = map (\<lambda>b. if b then 0 else 0xF0) (map (bit ?x) [0..<32])"
    by (simp add: comp_def)
  then have bb: "bittobyte (qh b) = map (\<lambda>i. if bit ?x i then 0 else 0xF0) [0..<32]"
    unfolding qh x32_bits bittobyte_groups by simp
  have dn: "denibble (qs b) = map ((AND) 15) (qs b) @ map (drop_bit 4) (qs b)"
    using denibble_eq[OF assms(1)] .
  have len: "length (denibble (qs b)) = 32" "length (bittobyte (qh b)) = 32"
    using assms(1) by (simp_all add: dn bb)
  have "load_q5_0 b ! i = denibble (qs b) ! i OR bittobyte (qh b) ! i"
    unfolding load_q5_0_def mm256_or_si256_def using len assms(3) by simp
  moreover have "denibble (qs b) ! i = (if i < 16 then qs b ! i AND 15 else drop_bit 4 (qs b ! (i - 16)))"
    using assms(1,3) by (simp add: dn nth_append and.commute)
  moreover have "bittobyte (qh b) ! i = (if bit ?x i then 0 else 0xF0)"
    using assms(3) by (simp add: bb del: upt_Suc)
  moreover have "length (load_q5_0 b) = 32"
    unfolding load_q5_0_def mm256_or_si256_def using len by simp
  ultimately show ?thesis by simp
qed

lemma nib_idx:
  "\<not> bit ((15::u8) AND x) 7" "((15::u8) AND x) AND 15 = 15 AND x"
  "\<not> bit (drop_bit 4 (x::u8)) 7" "drop_bit 4 (x::u8) AND 15 = drop_bit 4 x"
  by (simp_all add: bit_simps word8_eq_iff all8 bit15)

lemma kvalues_signed:
  "map sint kvalues_iq4nl = [-127, -104, -83, -65, -49, -35, -22, -10, 1, 13, 25, 38, 53, 69, 89, 113]"
  by code_simp

theorem load_q5_0_lanes_witness:
  "load_q5_0 sample_q5 ! 9 = 3 \<and> load_q5_0 sample_q5 ! 18 = 0xFF
   \<and> length (load_q5_0 sample_q5) = 32"
proof -
  have h: "length (qs sample_q5) = 16" "length (qh sample_q5) = 4" "(9::nat) < 32" "(18::nat) < 32"
    by (simp_all add: sample_q5_def)
  have e: "qs sample_q5 ! 9 AND 15 = 3" "bit (memcpy_u32 (qh sample_q5)) 9"
    "drop_bit 4 (qs sample_q5 ! 2) = 15" "\<not> bit (memcpy_u32 (qh sample_q5)) 18"
    by code_simp+
  from load_q5_0_lanes[OF h(1) h(2) h(3)] load_q5_0_lanes[OF h(1) h(2) h(4)]
  show ?thesis by (simp add: e)
qed

text \<open>
  C7.  For an iq4_nl block, lane \<open>i\<close> of \<^verbatim>\<open>load(block_iq4_nl)\<close> is the entry of the table
  \<^verbatim>\<open>kvalues_iq4nl\<close> at the \<open>i\<close>-th nibble of the payload (low nibbles in lanes 0..15, high
  nibbles in lanes 16..31), and the table, read as signed bytes, is the claimed sequence.
\<close>

theorem load_iq4_nl_lanes:
  assumes "length (qs b) = 16" "i < 32"
  shows "length (load_iq4_nl b) = 32
       \<and> load_iq4_nl b ! i
           = kvalues_iq4nl ! unat (if i < 16 then qs b ! i AND 15 else drop_bit 4 (qs b ! (i - 16)))
       \<and> map sint kvalues_iq4nl
           = [-127, -104, -83, -65, -49, -35, -22, -10, 1, 13, 25, 38, 53, 69, 89, 113]"
proof -
  have e: "even (length (qs b))" using assms by simp
  have tb: "iq4nlt = kvalues_iq4nl" by (simp add: iq4nlt_def mm_loadu_si128_def kvalues_iq4nl_def)
  have l0: "load0_iq4_nl b = map (\<lambda>x. kvalues_iq4nl ! unat (15 AND x)) (qs b)"
    unfolding load0_iq4_nl_def Let_def mm_loadu_si128_def mm_and_si128_def mm_set1_epi8_def
      mm_shuffle_epi8_def tb
    using assms(1) by (subst map2_replicate) (simp_all add: nib_idx comp_def)
  have "map ((AND) 15) (mm_srli_epi16 (qs b) 4) = map (drop_bit 4) (qs b)"
    using srli4_and15[OF e] .
  then have l1: "load1_iq4_nl b = map (\<lambda>x. kvalues_iq4nl ! unat (drop_bit 4 x)) (qs b)"
    unfolding load1_iq4_nl_def Let_def mm_loadu_si128_def mm_and_si128_def mm_set1_epi8_def
      mm_shuffle_epi8_def tb
    using assms(1) length_srli[OF e, of 4]
    by (subst map2_replicate) (simp_all add: nib_idx comp_def)
  have "load_iq4_nl b = load0_iq4_nl b @ load1_iq4_nl b"
    by (simp add: load_iq4_nl_def MM256_SET_M128I_def)
  then show ?thesis
    using assms by (simp add: l0 l1 nth_append and.commute kvalues_signed)
qed

theorem load_iq4_nl_lanes_witness:
  "sint (load_iq4_nl sample_q5 ! 18) = 113 \<and> sint (load_iq4_nl sample_q5 ! 9) = - 65
   \<and> length (load_iq4_nl sample_q5) = 32"
proof -
  have h: "length (qs sample_q5) = 16" "(9::nat) < 32" "(18::nat) < 32"
    by (simp_all add: sample_q5_def)
  have e: "unat (qs sample_q5 ! 9 AND 15) = 3" "unat (drop_bit 4 (qs sample_q5 ! 2)) = 15"
    "sint (kvalues_iq4nl ! 3) = - 65" "sint (kvalues_iq4nl ! 15) = 113"
    by code_simp+
  from load_iq4_nl_lanes[OF h(1) h(2)] load_iq4_nl_lanes[OF h(1) h(3)]
  show ?thesis by (simp add: e)
qed

subsection \<open>The tiers of the dot primitive\<close>

lemma sint8: "sint (x::u8) = (if uint x < 128 then uint x else uint x - 256)"
proof -
  have b: "0 \<le> uint x" "uint x < 256" using uint_lt2p[of x] by simp_all
  have d: "uint x div 128 = (if uint x < 128 then 0 else 1)"
  proof (cases "uint x < 128")
    case True
    then show ?thesis using b by (simp add: div_pos_pos_trivial)
  next
    case False
    then have "uint x = 128 * 1 + (uint x - 128)" "0 \<le> uint x - 128" "uint x - 128 < 128"
      using b by simp_all
    then have "uint x div 128 = 1" by (rule int_div_pos_eq)
    then show ?thesis using False by simp
  qed
  have "bit (uint x) 7 = (128 \<le> uint x)"
    by (simp add: bit_iff_odd d)
  moreover have "take_bit 8 (uint x) = uint x" using b by (simp add: take_bit_int_eq_self)
  ultimately show ?thesis
    by (simp add: sint_uint signed_take_bit_eq_take_bit_minus)
qed

lemma sint8_range: "- 128 \<le> sint (x::u8)" "sint (x::u8) \<le> 127"
proof -
  have b: "0 \<le> uint x" "uint x < 256" using uint_lt2p[of x] by simp_all
  have c: "sint x = uint x \<and> uint x < 128 \<or> sint x = uint x - 256 \<and> 128 \<le> uint x"
    by (cases "uint x < 128") (simp_all add: sint8)
  show "- 128 \<le> sint x" using b c by linarith
  show "sint x \<le> 127" using b c by linarith
qed

lemma uint_neg8: "uint (- x :: u8) = (- uint x) mod 256"
  using uint_word_ariths(4)[of x] by simp

lemma sign_self_bound: "uint (if sint x < 0 then - x else if x = 0 then 0 else (x::u8)) \<le> 128"
proof (cases "sint x < 0")
  case True
  then have "128 \<le> uint x" "uint x < 256" using uint_lt2p[of x] by (auto simp: sint8 split: if_splits)
  then have "- uint x = 256 * (- 1) + (256 - uint x)" "0 \<le> 256 - uint x" "256 - uint x < 256"
    by simp_all
  then have "(- uint x) mod 256 = 256 - uint x" by (rule int_mod_pos_eq)
  then have "(- uint x) mod 256 \<le> 128" using \<open>128 \<le> uint x\<close> by simp
  then show ?thesis using True by (simp add: uint_neg8)
next
  case False
  then have "uint x < 128" using uint_lt2p[of x] by (auto simp: sint8 split: if_splits)
  then show ?thesis using False by auto
qed

lemma prod_bound:
  fixes U S :: int
  assumes "0 \<le> U" "U \<le> 128" "- 128 \<le> S" "S \<le> 127"
  shows "- 16384 \<le> U * S" "U * S \<le> 16256"
proof -
  have "U * S \<le> U * 127" using assms by (intro mult_left_mono) auto
  also have "\<dots> \<le> 128 * 127" using assms by simp
  finally show "U * S \<le> 16256" by simp
  have "U * (- 128) \<le> U * S" using assms by (intro mult_left_mono) auto
  moreover have "- 16384 \<le> U * (- 128)" using assms by simp
  ultimately show "- 16384 \<le> U * S" by linarith
qed

lemma sign_fold_exact:
  assumes "length a = 32" "length b = 32"
  shows "maddubs_exact (mm256_sign_epi8 a a) (mm256_sign_epi8 b a)"
proof -
  have lane: "- 16384 \<le> uint (mm256_sign_epi8 a a ! i) * sint (mm256_sign_epi8 b a ! i)
            \<and> uint (mm256_sign_epi8 a a ! i) * sint (mm256_sign_epi8 b a ! i) \<le> 16256"
    if "i < 32" for i
  proof -
    have 1: "mm256_sign_epi8 a a ! i
               = (if sint (a ! i) < 0 then - (a ! i) else if a ! i = 0 then 0 else a ! i)"
      using that assms by (simp add: mm256_sign_epi8_def sign_epi8_def)
    have "uint (mm256_sign_epi8 a a ! i) \<le> 128" unfolding 1 by (rule sign_self_bound)
    then show ?thesis
      using prod_bound[of "uint (mm256_sign_epi8 a a ! i)" "sint (mm256_sign_epi8 b a ! i)"]
        sint8_range[of "mm256_sign_epi8 b a ! i"] by simp
  qed
  have len: "length (mm256_sign_epi8 a a) = 32"
    using assms by (simp add: mm256_sign_epi8_def sign_epi8_def)
  show ?thesis
    unfolding maddubs_exact_def list_all_iff len Let_def
  proof (intro ballI)
    fix j assume "j \<in> set [0..<32 div 2]"
    then have j: "2 * j < 32" "2 * j + 1 < 32" by auto
    from lane[OF j(1)] lane[OF j(2)]
    show "- 32768 \<le> uint (mm256_sign_epi8 a a ! (2 * j)) * sint (mm256_sign_epi8 b a ! (2 * j))
                   + uint (mm256_sign_epi8 a a ! (2 * j + 1)) * sint (mm256_sign_epi8 b a ! (2 * j + 1))
        \<and> uint (mm256_sign_epi8 a a ! (2 * j)) * sint (mm256_sign_epi8 b a ! (2 * j))
                   + uint (mm256_sign_epi8 a a ! (2 * j + 1)) * sint (mm256_sign_epi8 b a ! (2 * j + 1))
          \<le> 32767"
      by linarith
  qed
qed

lemma sint_saturate16:
  "- 32768 \<le> x \<Longrightarrow> x \<le> 32767 \<Longrightarrow> sint (saturate16 x) = x"
  by (simp add: saturate16_def signed_of_int signed_take_bit_int_eq_self)



lemma dpbusd_zero:
  "dpbusd_epi32 mm256_setzero_si256 u s
     = map (\<lambda>j. word_of_int (uint (u ! (4 * j)) * sint (s ! (4 * j))
                              + uint (u ! (4 * j + 1)) * sint (s ! (4 * j + 1))
                              + uint (u ! (4 * j + 2)) * sint (s ! (4 * j + 2))
                              + uint (u ! (4 * j + 3)) * sint (s ! (4 * j + 3)))) [0..<8]"
  unfolding dpbusd_epi32_def mm256_setzero_si256_def
  by (rule map_cong) simp_all

lemma fallback_exact:
  assumes "length u = 32" "maddubs_exact u s"
  shows "mm256_madd_epi16 (mm256_set1_epi16 1) (mm256_maddubs_epi16 u s)
     = map (\<lambda>j. word_of_int (uint (u ! (4 * j)) * sint (s ! (4 * j))
                              + uint (u ! (4 * j + 1)) * sint (s ! (4 * j + 1))
                              + uint (u ! (4 * j + 2)) * sint (s ! (4 * j + 2))
                              + uint (u ! (4 * j + 3)) * sint (s ! (4 * j + 3)))) [0..<8]"
proof -
  let ?P = "\<lambda>t. uint (u ! (2 * t)) * sint (s ! (2 * t)) + uint (u ! (2 * t + 1)) * sint (s ! (2 * t + 1))"
  have M: "maddubs_epi16 u s ! t = saturate16 (?P t)" if "t < 16" for t
    using that assms(1) by (simp add: maddubs_epi16_def)
  have ex: "sint (saturate16 (?P t)) = ?P t" if "t < 16" for t
    using assms that unfolding maddubs_exact_def list_all_iff Let_def
    by (intro sint_saturate16) auto
  have lane: "word_of_int (sint (replicate 16 (1::16 word) ! (2 * j)) * sint (maddubs_epi16 u s ! (2 * j))
                 + sint (replicate 16 (1::16 word) ! (2 * j + 1)) * sint (maddubs_epi16 u s ! (2 * j + 1)))
            = (word_of_int (uint (u ! (4 * j)) * sint (s ! (4 * j))
                              + uint (u ! (4 * j + 1)) * sint (s ! (4 * j + 1))
                              + uint (u ! (4 * j + 2)) * sint (s ! (4 * j + 2))
                              + uint (u ! (4 * j + 3)) * sint (s ! (4 * j + 3))) :: 32 word)"
    if "j < 8" for j
  proof -
    have t: "2 * j < 16" "2 * j + 1 < 16" using that by simp_all
    have i: "2 * (2 * j) = 4 * j" "2 * (2 * j) + 1 = 4 * j + 1" "2 * (2 * j + 1) = 4 * j + 2"
      "2 * (2 * j + 1) + 1 = 4 * j + 3" "4 * j + 2 + 1 = 4 * j + 3" by simp_all
    have s0: "sint (maddubs_epi16 u s ! (2 * j))
                = uint (u ! (4 * j)) * sint (s ! (4 * j))
                  + uint (u ! (4 * j + 1)) * sint (s ! (4 * j + 1))"
      using M[OF t(1)] ex[OF t(1)] by (simp only: i)
    have s1: "sint (maddubs_epi16 u s ! (2 * j + 1))
                = uint (u ! (4 * j + 2)) * sint (s ! (4 * j + 2))
                  + uint (u ! (4 * j + 3)) * sint (s ! (4 * j + 3))"
      using M[OF t(2)] ex[OF t(2)] by (simp only: i)
    have r: "replicate 16 (1::16 word) ! (2 * j) = 1" "replicate 16 (1::16 word) ! (2 * j + 1) = 1"
      using t by simp_all
    show ?thesis
      unfolding s0 s1 r by (simp add: add.assoc)
  qed
  have len: "length (maddubs_epi16 u s) = 16" using assms(1) by (simp add: maddubs_epi16_def)
  show ?thesis
    unfolding mm256_madd_epi16_def mm256_maddubs_epi16_def mm256_set1_epi16_def madd_epi16_def
  proof (rule map_cong)
    show "[0..<length (replicate 16 (1::16 word)) div 2] = [0..<8]" by simp
  next
    fix x :: nat
    assume "x \<in> set [0..<8]"
    then have "x < 8" by simp
    from lane[OF this]
    show "word_of_int (sint (replicate 16 (1::16 word) ! (2 * x)) * sint (maddubs_epi16 u s ! (2 * x))
                 + sint (replicate 16 (1::16 word) ! (2 * x + 1)) * sint (maddubs_epi16 u s ! (2 * x + 1)))
            = (word_of_int (uint (u ! (4 * x)) * sint (s ! (4 * x))
                              + uint (u ! (4 * x + 1)) * sint (s ! (4 * x + 1))
                              + uint (u ! (4 * x + 2)) * sint (s ! (4 * x + 2))
                              + uint (u ! (4 * x + 3)) * sint (s ! (4 * x + 3))) :: 32 word)" .
  qed
qed

lemma updot_epi32_exact:
  assumes "length u = 32" "maddubs_exact u s"
  shows "updot_epi32 cf u s
         = map (\<lambda>j. word_of_int (uint (u ! (4 * j)) * sint (s ! (4 * j))
                              + uint (u ! (4 * j + 1)) * sint (s ! (4 * j + 1))
                              + uint (u ! (4 * j + 2)) * sint (s ! (4 * j + 2))
                              + uint (u ! (4 * j + 3)) * sint (s ! (4 * j + 3)))) [0..<8]"
  unfolding updot_epi32_def mm256_dpbusd_epi32_def mm256_dpbusd_avx_epi32_def
  using dpbusd_zero[of u s] fallback_exact[OF assms] by simp

text \<open>
  C5.  For a 32-lane \<open>u\<close> and an \<open>s\<close> on which the fallback does not saturate, \<^verbatim>\<open>updot\<close>
  returns the same vector in every build configuration, so its three tiers agree; and the
  operands that the kernels pass, \<^verbatim>\<open>sign_epi8(a, a)\<close> and \<^verbatim>\<open>sign_epi8(b, a)\<close>, never saturate.
\<close>

theorem updot_tiers_agree:
  assumes "length u = 32" "length a = 32" "length b = 32"
  shows "(maddubs_exact u s \<longrightarrow> updot cf fo u s = updot cf' fo u s)
       \<and> maddubs_exact (mm256_sign_epi8 a a) (mm256_sign_epi8 b a)
       \<and> updot cf fo (mm256_sign_epi8 a a) (mm256_sign_epi8 b a)
           = updot cf' fo (mm256_sign_epi8 a a) (mm256_sign_epi8 b a)"
proof -
  have la: "length (mm256_sign_epi8 a a) = 32"
    using assms by (simp add: mm256_sign_epi8_def sign_epi8_def)
  note sf = sign_fold_exact[OF assms(2,3)]
  show ?thesis
    unfolding updot_def
    using updot_epi32_exact[OF assms(1), of s] updot_epi32_exact[OF la sf] sf
    by simp
qed

theorem updot_tiers_agree_witness:
  "updot (sample_cf\<lparr>AVX512VNNI := True, AVX512VL := True\<rparr>) sample_fo
         (replicate 32 3) (replicate 32 254)
     = updot sample_cf sample_fo (replicate 32 3) (replicate 32 254)
   \<and> updot (sample_cf\<lparr>AVXVNNI := True\<rparr>) sample_fo
         (mm256_sign_epi8 (replicate 32 200) (replicate 32 200))
         (mm256_sign_epi8 (replicate 32 100) (replicate 32 200))
     = updot sample_cf sample_fo
         (mm256_sign_epi8 (replicate 32 200) (replicate 32 200))
         (mm256_sign_epi8 (replicate 32 100) (replicate 32 200))"
proof -
  have h: "length (replicate 32 (3::u8)) = 32" "length (replicate 32 (200::u8)) = 32"
    "length (replicate 32 (100::u8)) = 32"
    by simp_all
  have e: "maddubs_exact (replicate 32 3) (replicate 32 254)"
    by code_simp
  from updot_tiers_agree[OF h, of "replicate 32 254"
         "sample_cf\<lparr>AVX512VNNI := True, AVX512VL := True\<rparr>" sample_fo sample_cf]
       updot_tiers_agree[OF h, of "replicate 32 254"
         "sample_cf\<lparr>AVXVNNI := True\<rparr>" sample_fo sample_cf]
  show ?thesis using e by simp
qed

subsection \<open>The fast quantised kernels\<close>

lemma fold_keyed_update:
  "distinct ks \<Longrightarrow>
   fold (\<lambda>k Cv. Cv(k := f k (Cv k))) ks Cv = (\<lambda>k. if k \<in> set ks then f k (Cv k) else Cv k)"
proof (induction ks arbitrary: Cv)
  case Nil
  then show ?case by simp
next
  case (Cons a ks)
  then show ?case by (auto simp: fun_eq_iff)
qed

lemma fold_rows:
  "fold (\<lambda>j. fold (\<lambda>i. g (j, i)) xs) js = fold g (concat (map (\<lambda>j. map (\<lambda>i. (j, i)) xs) js))"
  by (induction js) (simp_all add: fold_map comp_def)

lemma fold_cols:
  "fold (\<lambda>i. fold (\<lambda>j. g (j, i)) js) xs = fold g (concat (map (\<lambda>i. map (\<lambda>j. (j, i)) js) xs))"
  by (induction xs) (simp_all add: fold_map comp_def)

lemma distinct_rows:
  "distinct js \<Longrightarrow> distinct xs \<Longrightarrow> distinct (concat (map (\<lambda>j. map (\<lambda>i. (j, i)) xs) js))"
  by (induction js) (auto simp: distinct_map inj_on_def)

lemma distinct_cols:
  "distinct js \<Longrightarrow> distinct xs \<Longrightarrow> distinct (concat (map (\<lambda>i. map (\<lambda>j. (j, i)) js) xs))"
  by (induction xs) (auto simp: distinct_map inj_on_def)

lemma set_rows: "set (concat (map (\<lambda>j. map (\<lambda>i. (j, i)) xs) js)) = set js \<times> set xs"
  by auto

lemma set_cols: "set (concat (map (\<lambda>i. map (\<lambda>j. (j, i)) js) xs)) = set js \<times> set xs"
  by auto

text \<open>Both loop nests over a tile update every accumulator once.\<close>

lemma fold_tile_rows:
  assumes "distinct js" "distinct xs"
  shows "fold (\<lambda>j. fold (\<lambda>i Cv. Cv((j, i) := f (j, i) (Cv (j, i)))) xs) js Cv
         = (\<lambda>k. if k \<in> set js \<times> set xs then f k (Cv k) else Cv k)"
proof -
  have "fold (\<lambda>j. fold (\<lambda>i Cv. Cv((j, i) := f (j, i) (Cv (j, i)))) xs) js
        = fold (\<lambda>k Cv. Cv(k := f k (Cv k))) (concat (map (\<lambda>j. map (\<lambda>i. (j, i)) xs) js))"
    using fold_rows[of "\<lambda>k Cv. Cv(k := f k (Cv k))" xs js] by simp
  then show ?thesis
    using fold_keyed_update[OF distinct_rows[OF assms], of f Cv] unfolding set_rows by simp
qed

lemma fold_tile_cols:
  assumes "distinct js" "distinct xs"
  shows "fold (\<lambda>i. fold (\<lambda>j Cv. Cv((j, i) := f (j, i) (Cv (j, i)))) js) xs Cv
         = (\<lambda>k. if k \<in> set js \<times> set xs then f k (Cv k) else Cv k)"
proof -
  have "fold (\<lambda>i. fold (\<lambda>j Cv. Cv((j, i) := f (j, i) (Cv (j, i)))) js) xs
        = fold (\<lambda>k Cv. Cv(k := f k (Cv k))) (concat (map (\<lambda>i. map (\<lambda>j. (j, i)) js) xs))"
    using fold_cols[of "\<lambda>k Cv. Cv(k := f k (Cv k))" js xs] by simp
  then show ?thesis
    using fold_keyed_update[OF distinct_cols[OF assms], of f Cv] unfolding set_cols by simp
qed

lemma pack_delta_lanes:
  "ucast (pack_delta d3 d2 d1 d0) = d0"
  "ucast (drop_bit 16 (pack_delta d3 d2 d1 d0)) = d1"
  "ucast (drop_bit 32 (pack_delta d3 d2 d1 d0)) = d2"
  "ucast (drop_bit 48 (pack_delta d3 d2 d1 d0)) = d3"
proof -
  show "ucast (pack_delta d3 d2 d1 d0) = d0" unfolding pack_delta_def
    by (rule bit_word_eqI) (auto simp: bit_simps dest: bit_imp_le_length)
  show "ucast (drop_bit 16 (pack_delta d3 d2 d1 d0)) = d1" unfolding pack_delta_def
    by (rule bit_word_eqI) (auto simp: bit_simps dest: bit_imp_le_length)
  show "ucast (drop_bit 32 (pack_delta d3 d2 d1 d0)) = d2" unfolding pack_delta_def
    by (rule bit_word_eqI) (auto simp: bit_simps dest: bit_imp_le_length)
  show "ucast (drop_bit 48 (pack_delta d3 d2 d1 d0)) = d3" unfolding pack_delta_def
    by (rule bit_word_eqI) (auto simp: bit_simps dest: bit_imp_le_length)
qed

lemma upto03: "[0..3::int] = [0,1,2,3]" by code_simp

lemma cvtph_pack:
  "mm_cvtph_ps_epi64x fo (pack_delta d3 d2 d1 d0) = [cvtph fo d0, cvtph fo d1, cvtph fo d2, cvtph fo d3]"
  unfolding mm_cvtph_ps_epi64x_def upt4
  using pack_delta_lanes[of d3 d2 d1 d0] by simp

lemma delta_broadcast:
  fixes x0 x1 x2 x3 :: 'f
  defines "dvec \<equiv> mm256_permute2f128_cast0 [x0, x1, x2, x3]"
  shows "mm256_shuffle_ps dvec dvec 0 = mm256_set1_ps x0"
        "mm256_shuffle_ps dvec dvec 85 = mm256_set1_ps x1"
        "mm256_shuffle_ps dvec dvec 170 = mm256_set1_ps x2"
        "mm256_shuffle_ps dvec dvec 255 = mm256_set1_ps x3"
proof -
  have d: "dvec = [x0, x1, x2, x3, x0, x1, x2, x3]"
    by (simp add: dvec_def mm256_permute2f128_cast0_def)
  have t: "take 4 dvec = [x0, x1, x2, x3]" "drop 4 dvec = [x0, x1, x2, x3]"
    by (simp_all add: d)
  have r: "mm256_set1_ps x = [x, x, x, x, x, x, x, x]" for x :: 'f
    by (simp add: mm256_set1_ps_def numeral_eq_Suc)
  show "mm256_shuffle_ps dvec dvec 0 = mm256_set1_ps x0"
        "mm256_shuffle_ps dvec dvec 85 = mm256_set1_ps x1"
        "mm256_shuffle_ps dvec dvec 170 = mm256_set1_ps x2"
        "mm256_shuffle_ps dvec dvec 255 = mm256_set1_ps x3"
    unfolding mm256_shuffle_ps_def t shuffle_ps_half_def r
    by simp_all
qed

lemma delta_products:
  "mm_mul_ps fo [a0, a1, a2, a3] (mm_set1_ps b) = [fmul fo a0 b, fmul fo a1 b, fmul fo a2 b, fmul fo a3 b]"
  "mm_mul_ps fo (mm_set1_ps a) [b0, b1, b2, b3] = [fmul fo a b0, fmul fo a b1, fmul fo a b2, fmul fo a b3]"
  by (simp_all add: mm_mul_ps_def mm_set1_ps_def numeral_eq_Suc)

lemma gemm4xN_eq:
  assumes "AVX2 (q_cf Q)" "\<And>h. cvtph (q_fo Q) h = unhalf (q_fo Q) h"
  shows "Q0_gemm4xN Q rn m0 m n0 n = Q0_gemm Q 4 rn m0 m n0 n"
  unfolding Q0_gemm4xN_def Q0_gemm_def gemm_udTmp_def
  using assms
  by (simp add: Let_def upto03 cvtph_pack delta_products delta_broadcast comp_def)


lemma fold_row_update:
  "distinct xs \<Longrightarrow>
   fold (\<lambda>i Cv. Cv((j, i) := f i (Cv (j, i)))) xs Cv
     = (\<lambda>k. if fst k = j \<and> snd k \<in> set xs then f (snd k) (Cv k) else Cv k)"
proof (induction xs arbitrary: Cv)
  case Nil
  then show ?case by simp
next
  case (Cons a xs)
  then show ?case by (auto simp: fun_eq_iff)
qed

lemma fold_four_rows:
  fixes Cv :: "int \<times> int \<Rightarrow> 'a"
  assumes "distinct xs"
  shows "fold (\<lambda>i Cv. Cv((0, i) := f0 i (Cv (0, i)), (1, i) := f1 i (Cv (1, i)),
                          (2, i) := f2 i (Cv (2, i)), (3, i) := f3 i (Cv (3, i)))) xs Cv
         = fold (\<lambda>i Cv. Cv((3, i) := f3 i (Cv (3, i)))) xs
             (fold (\<lambda>i Cv. Cv((2, i) := f2 i (Cv (2, i)))) xs
                (fold (\<lambda>i Cv. Cv((1, i) := f1 i (Cv (1, i)))) xs
                   (fold (\<lambda>i Cv. Cv((0, i) := f0 i (Cv (0, i)))) xs Cv)))"
proof -
  have "fold (\<lambda>i Cv. Cv((0, i) := f0 i (Cv (0, i)), (1, i) := f1 i (Cv (1, i)),
                          (2, i) := f2 i (Cv (2, i)), (3, i) := f3 i (Cv (3, i)))) xs Cv
        = (\<lambda>k. if snd k \<in> set xs then
                   (if fst k = 0 then f0 (snd k) (Cv k) else if fst k = 1 then f1 (snd k) (Cv k)
                    else if fst k = 2 then f2 (snd k) (Cv k)
                    else if fst k = 3 then f3 (snd k) (Cv k) else Cv k)
                else Cv k)"
    using assms
  proof (induction xs arbitrary: Cv)
    case Nil
    then show ?case by simp
  next
    case (Cons a xs)
    then show ?case by (auto simp: fun_eq_iff)
  qed
  then show ?thesis
    using assms by (auto simp: fold_row_update fun_eq_iff)
qed

lemma fold_four_rows_madd:
  fixes Cv :: "int \<times> int \<Rightarrow> 'f list"
  assumes "distinct xs"
  shows "fold (\<lambda>i Cv. Cv((0, i) := madd cf fo (X0 i) (Y0 i) (Cv (0, i)),
                          (1, i) := madd cf fo (X1 i) (Y1 i) (Cv (1, i)),
                          (2, i) := madd cf fo (X2 i) (Y2 i) (Cv (2, i)),
                          (3, i) := madd cf fo (X3 i) (Y3 i) (Cv (3, i)))) xs Cv
         = fold (\<lambda>i Cv. Cv((3, i) := madd cf fo (X3 i) (Y3 i) (Cv (3, i)))) xs
             (fold (\<lambda>i Cv. Cv((2, i) := madd cf fo (X2 i) (Y2 i) (Cv (2, i)))) xs
                (fold (\<lambda>i Cv. Cv((1, i) := madd cf fo (X1 i) (Y1 i) (Cv (1, i)))) xs
                   (fold (\<lambda>i Cv. Cv((0, i) := madd cf fo (X0 i) (Y0 i) (Cv (0, i)))) xs Cv)))"
  using fold_four_rows[OF assms, of "\<lambda>i. madd cf fo (X0 i) (Y0 i)" "\<lambda>i. madd cf fo (X1 i) (Y1 i)"
          "\<lambda>i. madd cf fo (X2 i) (Y2 i)" "\<lambda>i. madd cf fo (X3 i) (Y3 i)" Cv] .

lemma gemmMx4_eq:
  assumes "AVX2 (q_cf Q)" "\<And>h. cvtph (q_fo Q) h = unhalf (q_fo Q) h"
  shows "Q0_gemmMx4 Q rm m0 m n0 n = Q0_gemm Q rm 4 m0 m n0 n"
  unfolding Q0_gemmMx4_def Q0_gemm_def gemm_udTmp_def
  using assms
  by (simp add: Let_def upto03 cvtph_pack delta_products delta_broadcast comp_def
                fold_four_rows_madd)

text \<open>
  Claim C9.  On every region and for every tile extent, the fast kernels
  \<^verbatim>\<open>gemm4xN<RN>\<close> and \<^verbatim>\<open>gemmMx4<RM>\<close> write the same cells with the same values, in the
  same order, as the generic \<^verbatim>\<open>gemm<4, RN>\<close> and \<^verbatim>\<open>gemm<RM, 4>\<close>: the four deltas packed into
  one 64-bit word and converted by one \<^verbatim>\<open>_mm_cvtph_ps\<close> are the four deltas converted one by
  one.  The fast kernels exist only in AVX2 builds with F16C; the conversion of the
  instruction and the one of \<^verbatim>\<open>unhalf\<close> are taken to be the same function.
\<close>

theorem fast_kernels_agree:
  assumes "AVX2 (q_cf Q)" and "\<forall>h. cvtph (q_fo Q) h = unhalf (q_fo Q) h"
  shows "Q0_gemm4xN Q rn m0 m n0 n = Q0_gemm Q 4 rn m0 m n0 n
       \<and> Q0_gemmMx4 Q rm m0 m n0 n = Q0_gemm Q rm 4 m0 m n0 n
       \<and> mm_cvtph_ps_epi64x (q_fo Q) (pack_delta d3 d2 d1 d0)
           = [unhalf (q_fo Q) d0, unhalf (q_fo Q) d1, unhalf (q_fo Q) d2, unhalf (q_fo Q) d3]"
proof -
  have c: "\<And>h. cvtph (q_fo Q) h = unhalf (q_fo Q) h" using assms(2) by simp
  show ?thesis
    using gemm4xN_eq[OF assms(1) c] gemmMx4_eq[OF assms(1) c] by (simp add: cvtph_pack c)
qed

theorem fast_kernels_agree_witness:
  "Q0_gemm4xN sample_Q 2 0 4 0 4 = Q0_gemm sample_Q 4 2 0 4 0 4
   \<and> Q0_gemmMx4 sample_Q 3 0 4 0 4 = Q0_gemm sample_Q 3 4 0 4 0 4
   \<and> mm_cvtph_ps_epi64x (q_fo sample_Q) (pack_delta 4 3 2 1) = [1, 2, 3, 4]"
proof -
  have h: "AVX2 (q_cf sample_Q)" "\<forall>h. cvtph (q_fo sample_Q) h = unhalf (q_fo sample_Q) h"
    by (simp_all add: sample_Q_def sample_cf_def sample_fo_def)
  have u: "unhalf (q_fo sample_Q) = uint" by (simp add: sample_Q_def sample_fo_def)
  from fast_kernels_agree[OF h, where rn = 2 and rm = 3 and ?m0.0 = 0 and m = 4 and ?n0.0 = 0 and n = 4
                          and ?d3.0 = 4 and ?d2.0 = 3 and ?d1.0 = 2 and ?d0.0 = 1]
  show ?thesis by (simp add: u)
qed

subsection \<open>Loops that end at their bound\<close>

lemma for_loop_stop: "stop \<le> i \<Longrightarrow> for_loop i stop step body s = Some (i, s)"
  by (subst for_loop.simps) simp

lemma for_loop_step: "i < stop \<Longrightarrow> for_loop i stop step body s = for_loop (i + step) stop step body (body i s)"
  by (subst for_loop.simps) simp

text \<open>A loop over \<open>c\<close> whole strides ends at its bound.\<close>

lemma for_loop_exact:
  assumes "0 < step"
  shows "for_loop a (a + int c * step) step body s
         = Some (a + int c * step, fold body (map (\<lambda>t. a + int t * step) [0..<c]) s)"
proof (induction c arbitrary: a s)
  case 0
  then show ?case by (simp add: for_loop_stop)
next
  case (Suc c)
  have lt: "a < a + int (Suc c) * step" using assms by (simp add: add_pos_nonneg)
  have e: "a + int (Suc c) * step = (a + step) + int c * step" by (simp add: algebra_simps)
  have m: "map (\<lambda>t. a + int t * step) [0..<Suc c]
             = a # map (\<lambda>t. (a + step) + int t * step) [0..<c]"
    by (simp add: upt_conv_Cons map_Suc_upt[symmetric] algebra_simps del: upt_Suc)
  show ?case
    using Suc[of "a + step" "body a s"]
    by (subst for_loop_step[OF lt]) (simp only: e m fold_Cons comp_def)
qed

lemma loop_exact:
  assumes "0 < step"
  shows "loop a (a + int c * step) step body s
         = Inr (a + int c * step, fold body (map (\<lambda>t. a + int t * step) [0..<c]) s)"
  by (simp add: loop_def for_loop_exact[OF assms])

lemma loop_none: "stop \<le> a \<Longrightarrow> loop a stop step body s = Inr (a, s)"
  by (simp add: loop_def for_loop_stop)

text \<open>A loop over any bound ends (positive stride).\<close>

lemma for_loop_returns:
  assumes "0 < step"
  shows "\<exists>c. for_loop a stop step body s
              = Some (a + int c * step, fold body (map (\<lambda>t. a + int t * step) [0..<c]) s)"
proof (induction "nat (stop - a)" arbitrary: a s rule: less_induct)
  case less
  show ?case
  proof (cases "a < stop")
    case False
    then have "for_loop a stop step body s = Some (a + int 0 * step, fold body (map (\<lambda>t. a + int t * step) [0..<0]) s)"
      by (simp add: for_loop_stop)
    then show ?thesis by blast
  next
    case True
    have "nat (stop - (a + step)) < nat (stop - a)" using True assms by simp
    from less[OF this, of "body a s"] obtain c where
      c: "for_loop (a + step) stop step body (body a s)
          = Some (a + step + int c * step,
                  fold body (map (\<lambda>t. a + step + int t * step) [0..<c]) (body a s))"
      by blast
    have m: "map (\<lambda>t. a + int t * step) [0..<Suc c]
             = a # map (\<lambda>t. (a + step) + int t * step) [0..<c]"
      by (simp add: upt_conv_Cons map_Suc_upt[symmetric] algebra_simps del: upt_Suc)
    have "for_loop a stop step body s
          = Some (a + int (Suc c) * step, fold body (map (\<lambda>t. a + int t * step) [0..<Suc c]) s)"
      unfolding m using c by (subst for_loop_step[OF True]) (simp add: algebra_simps)
    then show ?thesis by blast
  qed
qed

subsection \<open>The inner block of the floating-point engine\<close>

lemma fold_keyed_steps:
  "fold (\<lambda>l Cv k. if k \<in> K then g l k (Cv k) else Cv k) ls z
     = (\<lambda>k. if k \<in> K then fold (\<lambda>l. g l k) ls (z k) else z k)"
  by (induction ls arbitrary: z) (auto simp: fun_eq_iff)

lemma gemm_bloc_body:
  fixes ops :: "('v, 'd, 'f) vec_ops"
  shows "(\<lambda>l Cv.
             if rm \<le> rn then
               let Av = (\<lambda>i. vload_A ops (lda * (ii + i) + l)) in
               fold (\<lambda>j Cv.
                       let Bv = vload_B ops (ldb * (jj + j) + l) in
                       fold (\<lambda>i Cv. Cv((j, i) := vmadd ops (Av i) Bv (Cv (j, i)))) [0..rm - 1] Cv)
                    [0..rn - 1] Cv
             else
               let Bv = (\<lambda>j. vload_B ops (ldb * (jj + j) + l)) in
               fold (\<lambda>i Cv.
                       let Av = vload_A ops (lda * (ii + i) + l) in
                       fold (\<lambda>j Cv. Cv((j, i) := vmadd ops Av (Bv j) (Cv (j, i)))) [0..rn - 1] Cv)
                    [0..rm - 1] Cv)
   = (\<lambda>l Cv k. if k \<in> set [0..rn - 1] \<times> set [0..rm - 1]
                then vmadd ops (vload_A ops (lda * (ii + snd k) + l))
                               (vload_B ops (ldb * (jj + fst k) + l)) (Cv k)
                else Cv k)"
proof (intro ext)
  fix l :: int and Cv :: "int \<times> int \<Rightarrow> 'd" and k :: "int \<times> int"
  let ?f = "\<lambda>k :: int \<times> int. vmadd ops (vload_A ops (lda * (ii + snd k) + l))
                               (vload_B ops (ldb * (jj + fst k) + l))"
  have r: "fold (\<lambda>j. fold (\<lambda>i Cv. Cv((j, i) := ?f (j, i) (Cv (j, i)))) [0..rm - 1]) [0..rn - 1] Cv
         = (\<lambda>k. if k \<in> set [0..rn - 1] \<times> set [0..rm - 1] then ?f k (Cv k) else Cv k)"
    by (rule fold_tile_rows) simp_all
  have c: "fold (\<lambda>i. fold (\<lambda>j Cv. Cv((j, i) := ?f (j, i) (Cv (j, i)))) [0..rn - 1]) [0..rm - 1] Cv
         = (\<lambda>k. if k \<in> set [0..rn - 1] \<times> set [0..rm - 1] then ?f k (Cv k) else Cv k)"
    by (rule fold_tile_cols) simp_all
  show "(if rm \<le> rn then
               let Av = (\<lambda>i. vload_A ops (lda * (ii + i) + l)) in
               fold (\<lambda>j Cv.
                       let Bv = vload_B ops (ldb * (jj + j) + l) in
                       fold (\<lambda>i Cv. Cv((j, i) := vmadd ops (Av i) Bv (Cv (j, i)))) [0..rm - 1] Cv)
                    [0..rn - 1] Cv
             else
               let Bv = (\<lambda>j. vload_B ops (ldb * (jj + j) + l)) in
               fold (\<lambda>i Cv.
                       let Av = vload_A ops (lda * (ii + i) + l) in
                       fold (\<lambda>j Cv. Cv((j, i) := vmadd ops Av (Bv j) (Cv (j, i)))) [0..rn - 1] Cv)
                    [0..rm - 1] Cv) k
        = (if k \<in> set [0..rn - 1] \<times> set [0..rm - 1]
                then vmadd ops (vload_A ops (lda * (ii + snd k) + l))
                               (vload_B ops (ldb * (jj + fst k) + l)) (Cv k)
                else Cv k)"
    using r c unfolding Let_def by (simp del: set_upto)
qed

lemma gemm_bloc_writes:
  assumes "0 < KN" "0 \<le> k" "k mod KN = 0"
  shows "gemm_bloc ops KN k lda ldb rm rn ii jj
         = Inr (map (\<lambda>c. (c, cell_value ops KN k lda ldb c)) (tile_cells rm rn ii jj))"
proof -
  let ?c = "nat (k div KN)"
  have "k = k div KN * KN + k mod KN" by simp
  moreover have "0 \<le> k div KN" using assms by (simp add: pos_imp_zdiv_nonneg_iff)
  ultimately have k: "k = 0 + int ?c * KN" using assms(3) by simp
  let ?g = "\<lambda>l (k :: int \<times> int). vmadd ops (vload_A ops (lda * (ii + snd k) + l))
                               (vload_B ops (ldb * (jj + fst k) + l))"
  have steps: "map (\<lambda>t. 0 + int t * KN) [0..<?c] = k_steps KN k" by (simp add: k_steps_def)
  note le = loop_exact[OF assms(1), of 0 ?c, folded k, unfolded steps]
  show ?thesis
    unfolding gemm_bloc_def gemm_bloc_body le bind_err_def
    by (simp add: fold_keyed_steps[of _ ?g] tile_cells_def cell_value_def comp_def map_concat
             del: set_upto cong: map_cong)
qed

subsection \<open>Cells of tiles and strips\<close>

lemma valued_append [simp]: "valued ops KN k lda ldb (xs @ ys) = valued ops KN k lda ldb xs @ valued ops KN k lda ldb ys"
  by (simp add: valued_def)

lemma valued_Nil [simp]: "valued ops KN k lda ldb [] = []"
  by (simp add: valued_def)

lemma valued_concat: "concat (map (\<lambda>t. valued ops KN k lda ldb (f t)) ts) = valued ops KN k lda ldb (concat (map f ts))"
  by (simp add: valued_def map_concat comp_def)

lemma fst_valued [simp]: "map fst (valued ops KN k lda ldb cs) = cs"
  by (simp add: valued_def comp_def)

lemma set_tile_cells: "set (tile_cells rm rn ii jj) = {ii..<ii + rm} \<times> {jj..<jj + rn}"
proof -
  have "set (tile_cells rm rn ii jj) = (\<lambda>(j, i). (ii + i, jj + j)) ` ({0..rn - 1} \<times> {0..rm - 1})"
    by (auto simp: tile_cells_def)
  also have "\<dots> = {ii..<ii + rm} \<times> {jj..<jj + rn}"
  proof (intro set_eqI iffI)
    fix c assume "c \<in> (\<lambda>(j, i). (ii + i, jj + j)) ` ({0..rn - 1} \<times> {0..rm - 1})"
    then show "c \<in> {ii..<ii + rm} \<times> {jj..<jj + rn}" by auto
  next
    fix c assume c: "c \<in> {ii..<ii + rm} \<times> {jj..<jj + rn}"
    then have "(snd c - jj, fst c - ii) \<in> {0..rn - 1} \<times> {0..rm - 1}" by auto
    moreover have "c = (\<lambda>(j, i). (ii + i, jj + j)) (snd c - jj, fst c - ii)" by simp
    ultimately show "c \<in> (\<lambda>(j, i). (ii + i, jj + j)) ` ({0..rn - 1} \<times> {0..rm - 1})" by blast
  qed
  finally show ?thesis .
qed

lemma distinct_tile_cells: "distinct (tile_cells rm rn ii jj)"
proof -
  have e: "tile_cells rm rn ii jj
           = map (\<lambda>(j, i). (ii + i, jj + j)) (concat (map (\<lambda>j. map (\<lambda>i. (j, i)) [0..rm - 1]) [0..rn - 1]))"
    by (simp add: tile_cells_def map_concat comp_def)
  have "distinct (concat (map (\<lambda>j. map (\<lambda>i. (j, i)) [0..rm - 1]) [0..rn - 1]))"
    by (rule distinct_rows) simp_all
  then show ?thesis unfolding e by (auto simp: distinct_map inj_on_def)
qed

lemma strip_cells_Suc:
  "strip_cells rm step row a (Suc c) = strip_cells rm step row a c @ tile_cells rm step row (a + int c * step)"
  by (simp add: strip_cells_def)

lemma set_strip_cells:
  assumes "0 \<le> step"
  shows "set (strip_cells rm step row a c) = {row..<row + rm} \<times> {a..<a + int c * step}"
proof (induction c)
  case 0
  then show ?case by (simp add: strip_cells_def)
next
  case (Suc c)
  define w where "w = int c * step"
  have "0 \<le> w" using assms by (simp add: w_def)
  then have "{a..<a + w} \<union> {a + w..<a + w + step} = {a..<a + (w + step)}"
    using assms by auto
  moreover have "int (Suc c) * step = w + step" by (simp add: w_def algebra_simps)
  ultimately have u: "{a..<a + int c * step} \<union> {a + int c * step..<a + int c * step + step}
        = {a..<a + int (Suc c) * step}"
    by (simp add: w_def)
  have "set (strip_cells rm step row a (Suc c))
        = {row..<row + rm} \<times> ({a..<a + int c * step} \<union> {a + int c * step..<a + int c * step + step})"
    unfolding strip_cells_Suc by (auto simp: Suc set_tile_cells)
  then show ?case unfolding u .
qed

lemma distinct_strip_cells:
  assumes "0 \<le> step"
  shows "distinct (strip_cells rm step row a c)"
proof (induction c)
  case 0
  then show ?case by (simp add: strip_cells_def)
next
  case (Suc c)
  show ?case
    unfolding strip_cells_Suc using Suc
    by (auto simp: distinct_tile_cells set_strip_cells[OF assms] set_tile_cells)
qed

subsection \<open>One job of the floating-point gemm\<close>

lemma fold_append_writes:
  fixes f :: "int \<Rightarrow> 'w list"
  shows "fold (\<lambda>x acc. bind_err acc (\<lambda>ws. bind_err (Inr (f x)) (\<lambda>w. Inr (ws @ w)))) xs (Inr ws0)
         = (Inr (ws0 @ concat (map f xs)) :: error + 'w list)"
  by (induction xs arbitrary: ws0) (simp_all add: bind_err_def)

lemma bloc_loop_exact:
  assumes "0 < KN" "0 \<le> k" "k mod KN = 0" "0 < step"
  shows "bloc_loop ops KN k lda ldb rm rn row a (a + int c * step) step (Inr ws)
         = Inr (a + int c * step,
                Inr (ws @ valued ops KN k lda ldb
                            (concat (map (\<lambda>t. tile_cells rm rn row (a + int t * step)) [0..<c]))))"
proof -
  have b: "(\<lambda>jj acc. bind_err acc (\<lambda>ws.
                  bind_err (gemm_bloc ops KN k lda ldb rm rn row jj) (\<lambda>w. Inr (ws @ w))))
         = (\<lambda>jj acc. bind_err acc (\<lambda>ws.
                  bind_err (Inr (valued ops KN k lda ldb (tile_cells rm rn row jj)))
                           (\<lambda>w. Inr (ws @ w))))"
    by (simp add: gemm_bloc_writes[OF assms(1-3)] valued_def)
  show ?thesis
    unfolding bloc_loop_def b loop_exact[OF assms(4)] fold_append_writes
    by (simp add: comp_def valued_concat[symmetric])
qed

lemma bloc_loop_none:
  "stop \<le> a \<Longrightarrow> bloc_loop ops KN k lda ldb rm rn row a stop step acc = Inr (a, acc)"
  by (simp add: bloc_loop_def loop_none)

lemma BLOC_POS_le: "ib \<le> ibN \<Longrightarrow> BLOC_POS ib ibN bs = ib * bs"
  by (cases "ib = ibN") (auto simp: BLOC_POS_def)

lemma BLOC_POS_ge: "ibN \<le> ib \<Longrightarrow> BLOC_POS ib ibN bs = ibN * bs + (ib - ibN) * (bs - 1)"
  by (auto simp: BLOC_POS_def)

text \<open>The two column loops of a job end at \<open>jj2\<close>.\<close>

lemma col_split:
  fixes J jr0 jrN rn :: int
  assumes "1 \<le> rn" "jr0 \<le> jrN"
  defines "jj0 \<equiv> BLOC_POS jr0 J rn" and "jj2 \<equiv> BLOC_POS jrN J rn"
  defines "jj1 \<equiv> (if jj2 < J * rn then jj2 else J * rn)"
  shows "\<exists>c1 c2 :: nat. jj2 = jj0 + int c1 * rn + int c2 * (rn - 1)
            \<and> (jj1 = jj0 + int c1 * rn \<or> c1 = 0 \<and> jj1 \<le> jj0)"
proof -
  consider (A) "jrN \<le> J" | (B) "jr0 \<le> J" "J < jrN" | (C) "J < jr0" by linarith
  then show ?thesis
  proof cases
    case A
    then have e: "jj0 = jr0 * rn" "jj2 = jrN * rn"
      using assms(2) by (simp_all add: jj0_def jj2_def BLOC_POS_le)
    have "jrN * rn \<le> J * rn" using A assms(1) by (intro mult_right_mono) auto
    then have j1: "jj1 = jj2" by (auto simp: jj1_def e)
    have "jj2 = jj0 + int (nat (jrN - jr0)) * rn + int 0 * (rn - 1)"
      using assms(2) by (simp add: e algebra_simps)
    moreover have "jj1 = jj0 + int (nat (jrN - jr0)) * rn"
      using assms(2) by (simp add: j1 e algebra_simps)
    ultimately show ?thesis by blast
  next
    case B
    then have e: "jj0 = jr0 * rn" "jj2 = J * rn + (jrN - J) * (rn - 1)"
      by (simp_all add: jj0_def jj2_def BLOC_POS_le BLOC_POS_ge)
    have "0 \<le> (jrN - J) * (rn - 1)" using B assms(1) by simp
    then have j1: "jj1 = J * rn" by (simp add: jj1_def e)
    have "jj2 = jj0 + int (nat (J - jr0)) * rn + int (nat (jrN - J)) * (rn - 1)"
      using B by (simp add: e algebra_simps)
    moreover have "jj1 = jj0 + int (nat (J - jr0)) * rn"
      using B by (simp add: j1 e algebra_simps)
    ultimately show ?thesis by blast
  next
    case C
    then have e: "jj0 = J * rn + (jr0 - J) * (rn - 1)" "jj2 = J * rn + (jrN - J) * (rn - 1)"
      using assms(2) by (simp_all add: jj0_def jj2_def BLOC_POS_ge)
    have "0 \<le> (jrN - J) * (rn - 1)" "0 \<le> (jr0 - J) * (rn - 1)" using C assms(1,2) by simp_all
    then have j1: "jj1 = J * rn" "jj1 \<le> jj0" by (simp_all add: jj1_def e)
    have "jj2 = jj0 + int 0 * rn + int (nat (jrN - jr0)) * (rn - 1)"
      using assms(2) by (simp add: e algebra_simps)
    then show ?thesis using j1 by blast
  qed
qed

lemma BLOC_POS_mono:
  assumes "1 \<le> bs" "a \<le> b"
  shows "BLOC_POS a J bs \<le> BLOC_POS b J bs"
proof -
  consider (A) "b \<le> J" | (B) "a \<le> J" "J < b" | (C) "J < a" by linarith
  then show ?thesis
  proof cases
    case A
    then have "BLOC_POS a J bs = a * bs" "BLOC_POS b J bs = b * bs"
      using assms(2) by (simp_all add: BLOC_POS_le)
    then show ?thesis using assms by (simp add: mult_right_mono)
  next
    case B
    then have e: "BLOC_POS a J bs = a * bs" "BLOC_POS b J bs = J * bs + (b - J) * (bs - 1)"
      by (simp_all add: BLOC_POS_le BLOC_POS_ge)
    have "a * bs \<le> J * bs" using B assms by (simp add: mult_right_mono)
    moreover have "0 \<le> (b - J) * (bs - 1)" using B assms by simp
    ultimately show ?thesis unfolding e by linarith
  next
    case C
    then have e: "BLOC_POS a J bs = J * bs + (a - J) * (bs - 1)"
                 "BLOC_POS b J bs = J * bs + (b - J) * (bs - 1)"
      using assms(2) by (simp_all add: BLOC_POS_ge)
    have "(a - J) * (bs - 1) \<le> (b - J) * (bs - 1)" using assms by (intro mult_right_mono) auto
    then show ?thesis unfolding e by linarith
  qed
qed

lemma tile_cells_empty: "rn \<le> 0 \<Longrightarrow> tile_cells rm rn ii jj = []"
  by (simp add: tile_cells_def)

lemma strip_cells_empty: "step \<le> 0 \<Longrightarrow> strip_cells rm step row a c = []"
  by (simp add: strip_cells_def tile_cells_empty)

lemma strip_cells_0: "strip_cells rm step row a 0 = []"
  by (simp add: strip_cells_def)

text \<open>One row of blocks of a job: both column loops and the assertion after them.\<close>

lemma job_row:
  fixes ops :: "('v, 'd, 'f) vec_ops"
  assumes kn: "0 < KN" "0 \<le> k" "k mod KN = 0"
    and rn: "1 \<le> rn"
    and c: "jj2 = jj0 + int c1 * rn + int c2 * (rn - 1)"
           "jj1 = jj0 + int c1 * rn \<or> c1 = 0 \<and> jj1 \<le> jj0"
  shows "bind_err (bloc_loop ops KN k lda ldb rm rn row jj0 jj1 rn (Inr ws))
           (\<lambda>(jj, acc).
              bind_err (if rn > 1
                        then bloc_loop ops KN k lda ldb rm (rn - 1) row jj jj2 (rn - 1) acc
                        else Inr (jj, acc))
                (\<lambda>(jj, acc). if jj \<noteq> jj2 then Inl Assert_failed else acc))
         = Inr (ws @ valued ops KN k lda ldb (row_cells rm rn row jj0 c1 c2))"
proof -
  have rn0: "0 < rn" using rn by simp
  have l1: "bloc_loop ops KN k lda ldb rm rn row jj0 jj1 rn (Inr ws)
            = Inr (jj0 + int c1 * rn, Inr (ws @ valued ops KN k lda ldb (strip_cells rm rn row jj0 c1)))"
  proof (cases "jj1 = jj0 + int c1 * rn")
    case True
    show ?thesis
      unfolding True bloc_loop_exact[OF kn rn0] strip_cells_def by simp
  next
    case False
    then have "c1 = 0" "jj1 \<le> jj0" using c(2) by auto
    then show ?thesis by (simp add: bloc_loop_none strip_cells_0)
  qed
  let ?a = "jj0 + int c1 * rn"
  let ?ws = "ws @ valued ops KN k lda ldb (strip_cells rm rn row jj0 c1)"
  have l2: "(if rn > 1
             then bloc_loop ops KN k lda ldb rm (rn - 1) row ?a jj2 (rn - 1) (Inr ?ws)
             else Inr (?a, Inr ?ws))
            = Inr (jj2, Inr (?ws @ valued ops KN k lda ldb (strip_cells rm (rn - 1) row ?a c2)))"
  proof (cases "rn > 1")
    case True
    then have s: "0 < rn - 1" by simp
    have e: "jj2 = ?a + int c2 * (rn - 1)" using c(1) by simp
    show ?thesis
      unfolding e using True by (simp add: bloc_loop_exact[OF kn s] strip_cells_def)
  next
    case False
    then have "rn = 1" using rn by simp
    then show ?thesis using c(1) by (simp add: strip_cells_empty)
  qed
  show ?thesis
    unfolding l1 by (simp add: bind_err_def l2 row_cells_def)
qed

lemma fold_rows_append:
  fixes body :: "int \<Rightarrow> error + 'w list \<Rightarrow> error + 'w list"
  assumes "\<And>x ws. body x (Inr ws) = Inr (ws @ g x)"
  shows "fold body xs (Inr ws) = Inr (ws @ concat (map g xs))"
  by (induction xs arbitrary: ws) (simp_all add: assms)

lemma set_row_cells:
  assumes "1 \<le> rn"
  shows "set (row_cells rm rn row jj0 c1 c2)
         = {row..<row + rm} \<times> {jj0..<jj0 + int c1 * rn + int c2 * (rn - 1)}"
proof -
  have a: "0 \<le> rn" "0 \<le> rn - 1" using assms by simp_all
  define u where "u = int c1 * rn"
  define v where "v = int c2 * (rn - 1)"
  have "0 \<le> u" "0 \<le> v" using a by (simp_all add: u_def v_def)
  then have "{jj0..<jj0 + u} \<union> {jj0 + u..<jj0 + u + v} = {jj0..<jj0 + u + v}" by auto
  then show ?thesis
    unfolding row_cells_def set_append set_strip_cells[OF a(1)] set_strip_cells[OF a(2)]
    by (auto simp: u_def v_def)
qed

lemma distinct_row_cells:
  assumes "1 \<le> rn"
  shows "distinct (row_cells rm rn row jj0 c1 c2)"
proof -
  have a: "0 \<le> rn" "0 \<le> rn - 1" using assms by simp_all
  show ?thesis
    unfolding row_cells_def
    by (auto simp: distinct_strip_cells[OF a(1)] distinct_strip_cells[OF a(2)]
                   set_strip_cells[OF a(1)] set_strip_cells[OF a(2)])
qed

text \<open>Lists of cells stacked over \<open>c\<close> bands of \<open>h\<close> rows.\<close>

lemma stacked_rows:
  fixes f :: "int \<Rightarrow> cell list"
  assumes "0 \<le> h" "\<And>row. set (f row) = {row..<row + h} \<times> X" "\<And>row. distinct (f row)"
  shows "set (concat (map (\<lambda>t. f (r0 + int t * h)) [0..<c])) = {r0..<r0 + int c * h} \<times> X
       \<and> distinct (concat (map (\<lambda>t. f (r0 + int t * h)) [0..<c]))"
proof (induction c)
  case 0
  then show ?case by simp
next
  case (Suc c)
  define w where "w = int c * h"
  have w: "0 \<le> w" using assms(1) by (simp add: w_def)
  have e: "int (Suc c) * h = w + h" by (simp add: w_def algebra_simps)
  have u: "{r0..<r0 + w} \<union> {r0 + w..<r0 + w + h} = {r0..<r0 + (w + h)}"
    using w assms(1) by auto
  have d: "{r0..<r0 + w} \<inter> {r0 + w..<r0 + w + h} = {}" by auto
  have s: "set (concat (map (\<lambda>t. f (r0 + int t * h)) [0..<c])) = {r0..<r0 + w} \<times> X"
    and t: "distinct (concat (map (\<lambda>t. f (r0 + int t * h)) [0..<c]))"
    using Suc by (simp_all add: w_def)
  have "set (concat (map (\<lambda>t. f (r0 + int t * h)) [0..<Suc c]))
        = ({r0..<r0 + w} \<union> {r0 + w..<r0 + w + h}) \<times> X"
    using s by (auto simp: assms(2) w_def)
  moreover have "distinct (concat (map (\<lambda>t. f (r0 + int t * h)) [0..<Suc c]))"
    using t s d by (auto simp: assms(2,3) w_def)
  ultimately show ?case unfolding u e by simp
qed

text \<open>One job writes every cell of its rectangle once, each with the value of the cell.\<close>

lemma gemm_job_writes:
  fixes ops :: "('v, 'd, 'f) vec_ops"
  assumes kn: "0 < KN" "0 \<le> k" "k mod KN = 0"
    and gc: "ytiles gc \<noteq> 0" "0 < RM gc" "0 \<le> BM gc" "1 \<le> RN gc" "1 \<le> SIZE_BN gc"
  shows "\<exists>cs. gemm_job ops KN k lda ldb gc job = Inr (valued ops KN k lda ldb cs)
            \<and> distinct cs \<and> set cs = job_rect gc job"
proof -
  define ii where "ii = job mod ytiles gc * RM gc * BM gc"
  define jb where "jb = job div ytiles gc"
  define jr0 where "jr0 = BLOC_POS jb (jj_BN gc) (SIZE_BN gc)"
  define jrN where "jrN = BLOC_POS (jb + 1) (jj_BN gc) (SIZE_BN gc)"
  define jj0 where "jj0 = BLOC_POS jr0 (jj_RN gc) (RN gc)"
  define jj2 where "jj2 = BLOC_POS jrN (jj_RN gc) (RN gc)"
  define jj1 where "jj1 = (if jj2 < jj_RN gc * RN gc then jj2 else jj_RN gc * RN gc)"
  have "jr0 \<le> jrN" unfolding jr0_def jrN_def by (rule BLOC_POS_mono[OF gc(5)]) simp
  from col_split[OF gc(4) this, of "jj_RN gc", folded jj0_def jj2_def, folded jj1_def]
  obtain c1 c2 :: nat where c: "jj2 = jj0 + int c1 * RN gc + int c2 * (RN gc - 1)"
      "jj1 = jj0 + int c1 * RN gc \<or> c1 = 0 \<and> jj1 \<le> jj0"
    by blast
  define rowf where "rowf = (\<lambda>row. row_cells (RM gc) (RN gc) row jj0 c1 c2)"
  define cs where "cs = concat (map (\<lambda>t. rowf (ii + int t * RM gc)) [0..<nat (BM gc)])"
  have body: "\<And>bi ws. bind_err (bloc_loop ops KN k lda ldb (RM gc) (RN gc) (ii + bi) jj0 jj1 (RN gc) (Inr ws))
           (\<lambda>(jj, acc).
              bind_err (if RN gc > 1
                        then bloc_loop ops KN k lda ldb (RM gc) (RN gc - 1) (ii + bi) jj jj2 (RN gc - 1) acc
                        else Inr (jj, acc))
                (\<lambda>(jj, acc). if jj \<noteq> jj2 then Inl Assert_failed else acc))
         = Inr (ws @ valued ops KN k lda ldb (rowf (ii + bi)))"
    unfolding rowf_def by (rule job_row[OF kn gc(4) c])
  have stop: "BM gc * RM gc = 0 + int (nat (BM gc)) * RM gc" using gc(3) by simp
  have run: "gemm_job ops KN k lda ldb gc job = Inr (valued ops KN k lda ldb cs)"
    unfolding gemm_job_def Let_def
    unfolding ii_def[symmetric] jb_def[symmetric]
    unfolding jr0_def[symmetric] jrN_def[symmetric]
    unfolding jj0_def[symmetric] jj2_def[symmetric]
    unfolding jj1_def[symmetric]
    using gc(1)
    apply (simp only: if_False)
    apply (subst stop)
    apply (subst loop_exact[OF gc(2)])
    apply (subst fold_rows_append[where g = "\<lambda>bi. valued ops KN k lda ldb (rowf (ii + bi))"])
     apply (rule body)
    apply (simp add: bind_err_def cs_def comp_def valued_concat)
    done
  have st: "set cs = {ii..<ii + int (nat (BM gc)) * RM gc} \<times> {jj0..<jj2} \<and> distinct cs"
    unfolding cs_def
  proof (rule stacked_rows)
    show "0 \<le> RM gc" using gc(2) by simp
    show "\<And>row. set (rowf row) = {row..<row + RM gc} \<times> {jj0..<jj2}"
      unfolding rowf_def set_row_cells[OF gc(4)] c(1) by simp
    show "\<And>row. distinct (rowf row)"
      unfolding rowf_def by (rule distinct_row_cells[OF gc(4)])
  qed
  have "set cs = job_rect gc job"
    using st gc(3)
    by (simp add: job_rect_def col_start_def ii_def jb_def jr0_def jrN_def jj0_def jj2_def)
  then show ?thesis using run st by blast
qed

subsection \<open>The constants of the floating-point gemm\<close>

lemma tinyBLAS_gemm_plan:
  assumes "m mod (rm * bm) = 0" "0 \<le> n" "1 \<le> rn" "1 \<le> BN"
  shows "tinyBLAS_gemm rm rn bm ith m n BN = Inr (gemm_plan rm rn bm m n BN)"
proof -
  have xt: "0 \<le> (n + rn - 1) div rn" using assms by (simp add: pos_imp_zdiv_nonneg_iff)
  have nb: "1 \<le> gemm_NB_BN ((n + rn - 1) div rn) BN" using gemm_NB_BN_pos[OF assms(4) xt] .
  show ?thesis
    unfolding tinyBLAS_gemm_def gemm_plan_def Let_def using assms nb
    by (simp add: gemm_stripe_identity)
qed

lemma tinyBLAS_mnpack_plan:
  assumes "m mod (rm * bm) = 0" "0 \<le> n" "1 \<le> SIZE_N" "SIZE_N \<le> rn" "1 \<le> BN"
  shows "tinyBLAS_mnpack rm rn bm ith m n SIZE_N BN = Inr (gemm_plan rm SIZE_N bm m n BN)"
  using assms
proof (induction rm rn bm ith m n SIZE_N BN rule: tinyBLAS_mnpack.induct)
  case (1 rm rn bm ith m n SIZE_N BN)
  show ?case
  proof (cases "SIZE_N = rn")
    case True
    then show ?thesis
      using tinyBLAS_gemm_plan[of m rm bm n rn BN ith] 1(2-)
      by (subst tinyBLAS_mnpack.simps) simp
  next
    case False
    then have "rn > 1" "SIZE_N \<le> rn - 1" using 1(4,5) by auto
    then show ?thesis using 1 False by (subst tinyBLAS_mnpack.simps) simp
  qed
qed

text \<open>Ceilings of quotients.\<close>

lemma ceil_bounds:
  fixes n d :: int
  assumes "1 \<le> d"
  shows "n \<le> (n + d - 1) div d * d" "(n + d - 1) div d * d \<le> n + d - 1"
proof -
  have e: "(n + d - 1) = (n + d - 1) div d * d + (n + d - 1) mod d" by simp
  have "(n + d - 1) mod d < d" "0 \<le> (n + d - 1) mod d" using assms by simp_all
  then show "n \<le> (n + d - 1) div d * d" "(n + d - 1) div d * d \<le> n + d - 1"
    using e by linarith+
qed

lemma ceil_pos:
  fixes n d :: int
  assumes "1 \<le> d" "1 \<le> n"
  shows "1 \<le> (n + d - 1) div d"
  using NB_BLOC_bounds(1)[OF assms(2,1)] .

lemma ceil_le:
  fixes n d M :: int
  assumes "1 \<le> d" "n \<le> d * M"
  shows "(n + d - 1) div d \<le> M"
  using ceil_div_le[OF assms] ceil_div_eq[OF assms(1), of n] by simp

text \<open>The positions of the blocks of widths \<open>s\<close> and \<open>s - 1\<close> end at \<open>n\<close>.\<close>

lemma blocks_end:
  fixes n s xt :: int
  assumes "1 \<le> s" "1 \<le> n" "xt = (n + s - 1) div s" "xt * (s - 1) < n"
  shows "BLOC_POS 0 (xt - (xt * s - n)) s = 0" "BLOC_POS xt (xt - (xt * s - n)) s = n"
proof -
  have le: "n \<le> xt * s" unfolding assms(3) by (rule ceil_bounds(1)[OF assms(1)])
  have pos: "0 < xt - (xt * s - n)" using assms(4) by (simp add: algebra_simps)
  show "BLOC_POS 0 (xt - (xt * s - n)) s = 0" using pos by (simp add: BLOC_POS_def)
  have "xt - (xt * s - n) \<le> xt" using le by simp
  then have "BLOC_POS xt (xt - (xt * s - n)) s
             = (xt - (xt * s - n)) * s + (xt - (xt - (xt * s - n))) * (s - 1)"
    by (rule BLOC_POS_ge)
  also have "\<dots> = n" by (simp add: algebra_simps)
  finally show "BLOC_POS xt (xt - (xt * s - n)) s = n" .
qed

lemma float_plan_gemm_plan:
  assumes m: "0 \<le> m" "m mod (4 * bm) = 0" "1 \<le> bm"
    and n: "1 \<le> n" "1 \<le> M" "1 \<le> BN"
    and s: "BLOCK_SIZE M n = Inr s"
  shows "float_plan (gemm_plan 4 s bm m n BN) m n"
proof -
  define NBn where "NBn = (n + M - 1) div M"
  have nbn: "1 \<le> NBn" unfolding NBn_def by (rule ceil_pos[OF n(2,1)])
  have s_eq: "s = (n + NBn - 1) div NBn"
    using s nbn ceil_div_eq[OF nbn, of n] unfolding BLOCK_SIZE_def NBn_def[symmetric] Let_def
    by (simp split: if_splits)
  have s1: "1 \<le> s" unfolding s_eq by (rule ceil_pos[OF nbn n(1)])
  have sb: "n \<le> s * NBn" "s * NBn \<le> n + NBn - 1"
    unfolding s_eq using ceil_bounds[OF nbn, of n] by simp_all
  define xt where "xt = (n + s - 1) div s"
  have xt1: "1 \<le> xt" unfolding xt_def by (rule ceil_pos[OF s1 n(1)])
  have xt_le: "xt \<le> NBn" unfolding xt_def using sb(1) by (intro ceil_le[OF s1]) simp
  have "xt * (s - 1) \<le> NBn * (s - 1)" using xt_le s1 by (intro mult_right_mono) auto
  also have "\<dots> = s * NBn - NBn" by (simp add: algebra_simps)
  also have "\<dots> < n" using sb(2) by simp
  finally have lt: "xt * (s - 1) < n" .
  note T = blocks_end[OF s1 n(1) xt_def lt]
  define NB where "NB = gemm_NB_BN xt BN"
  have nb: "1 \<le> NB" unfolding NB_def using gemm_NB_BN_pos[OF n(3), of xt] xt1 by simp
  define SZ where "SZ = gemm_SIZE_BN xt NB"
  have sz_eq: "SZ = (xt + NB - 1) div NB"
    unfolding SZ_def gemm_SIZE_BN_def using ceil_div_eq[OF nb] .
  have sz1: "1 \<le> SZ" unfolding sz_eq by (rule ceil_pos[OF nb xt1])
  have szb: "xt \<le> SZ * NB" "SZ * NB \<le> xt + NB - 1"
    unfolding sz_eq using ceil_bounds[OF nb, of xt] by simp_all
  define jbn where "jbn = gemm_jj_BN xt NB SZ"
  have jb: "0 < jbn" "jbn \<le> NB"
    using szb by (simp_all add: jbn_def gemm_jj_BN_def algebra_simps)
  have S0: "BLOC_POS 0 jbn SZ = 0" using jb by (simp add: BLOC_POS_def)
  have SN: "BLOC_POS NB jbn SZ = xt"
    using BLOC_POS_ge[OF jb(2), of SZ] gemm_stripe_identity[of xt NB SZ] by (simp add: jbn_def)
  have yt: "0 \<le> m div (4 * bm)" using m by (simp add: pos_imp_zdiv_nonneg_iff)
  have ym: "m div (4 * bm) * (4 * bm) = m" using m(2) by (simp add: mod_0_imp_dvd)
  have g: "gemm_plan 4 s bm m n BN
           = \<lparr>RM = 4, RN = s, BM = bm, ytiles = m div (4 * bm), xtiles = xt,
              jj_RN = xt - (xt * s - n), NB_BN = NB, SIZE_BN = SZ,
              jj_BN = jbn, nb_job = m div (4 * bm) * NB\<rparr>"
    by (simp add: gemm_plan_def Let_def xt_def NB_def SZ_def jbn_def)
  show ?thesis
    unfolding float_plan_def col_start_def g
    using m(3) s1 sz1 nb yt ym S0 SN T by simp
qed

lemma matmul_branch_plan:
  assumes "0 \<le> m" "m mod (4 * bm) = 0" "1 \<le> bm" "1 \<le> n" "1 \<le> M" "1 \<le> BN"
  shows "\<exists>gc. float_plan gc m n \<and>
           (\<forall>ith. bind_err (BLOCK_SIZE M n) (\<lambda>SIZE_N.
              bind_err (tinyBLAS_mnpack 4 M bm ith m n SIZE_N BN) (\<lambda>gc. Inr (Some gc)))
            = Inr (Some gc))"
proof -
  obtain s where s: "BLOCK_SIZE M n = Inr s" "1 \<le> s" "s \<le> M"
    using BLOCK_SIZE_range[of n M] assms by auto
  have n0: "0 \<le> n" using assms by simp
  have "\<And>ith. tinyBLAS_mnpack 4 M bm ith m n s BN = Inr (gemm_plan 4 s bm m n BN)"
    by (rule tinyBLAS_mnpack_plan[OF assms(2) n0 s(2,3) assms(6)])
  then have "\<forall>ith. bind_err (BLOCK_SIZE M n) (\<lambda>SIZE_N.
              bind_err (tinyBLAS_mnpack 4 M bm ith m n SIZE_N BN) (\<lambda>gc. Inr (Some gc)))
            = Inr (Some (gemm_plan 4 s bm m n BN))"
    using s(1) by (simp add: bind_err_def)
  then show ?thesis
    using float_plan_gemm_plan[OF assms(1-6) s(1)] by blast
qed

text \<open>What \<^verbatim>\<open>matmul\<close> decides is the same for every worker.\<close>

lemma matmul_cases:
  assumes "0 \<le> m" "1 \<le> n"
  shows "(\<forall>ith. tinyBLAS_matmul vr32 KN k ith nthreads m n = Inr None)
       \<or> (\<exists>gc. float_plan gc m n \<and> k mod KN = 0
              \<and> (\<forall>ith. tinyBLAS_matmul vr32 KN k ith nthreads m n = Inr (Some gc)))"
proof (cases "k mod KN = 0")
  case False
  then show ?thesis by (simp add: tinyBLAS_matmul_def)
next
  case k: True
  note br = matmul_branch_plan[OF assms(1) _ _ assms(2)]
  consider (a) "m mod 16 = 0 \<and> nthreads \<le> m div 16"
    | (b) "\<not> (m mod 16 = 0 \<and> nthreads \<le> m div 16)" "m mod 8 = 0"
    | (c) "\<not> (m mod 16 = 0 \<and> nthreads \<le> m div 16)" "m mod 8 \<noteq> 0" "m mod 4 = 0"
    | (d) "\<not> (m mod 16 = 0 \<and> nthreads \<le> m div 16)" "m mod 8 \<noteq> 0" "m mod 4 \<noteq> 0"
    by blast
  then show ?thesis
  proof cases
    case a
    then have a4: "m mod (4 * 4) = 0" by simp
    from br[OF a4, of 6 12] br[OF a4, of 3 24] obtain g1 g2 where
      "float_plan g1 m n" "\<forall>ith. bind_err (BLOCK_SIZE 6 n) (\<lambda>SIZE_N.
           bind_err (tinyBLAS_mnpack 4 6 4 ith m n SIZE_N 12) (\<lambda>gc. Inr (Some gc)))
         = Inr (Some g1)"
      "float_plan g2 m n" "\<forall>ith. bind_err (BLOCK_SIZE 3 n) (\<lambda>SIZE_N.
           bind_err (tinyBLAS_mnpack 4 3 4 ith m n SIZE_N 24) (\<lambda>gc. Inr (Some gc)))
         = Inr (Some g2)"
      by auto
    then show ?thesis using a k unfolding tinyBLAS_matmul_def by (cases vr32) auto
  next
    case b
    then have b4: "m mod (4 * 2) = 0" by simp
    from br[OF b4, of 6 12] br[OF b4, of 3 24] obtain g1 g2 where
      "float_plan g1 m n" "\<forall>ith. bind_err (BLOCK_SIZE 6 n) (\<lambda>SIZE_N.
           bind_err (tinyBLAS_mnpack 4 6 2 ith m n SIZE_N 12) (\<lambda>gc. Inr (Some gc)))
         = Inr (Some g1)"
      "float_plan g2 m n" "\<forall>ith. bind_err (BLOCK_SIZE 3 n) (\<lambda>SIZE_N.
           bind_err (tinyBLAS_mnpack 4 3 2 ith m n SIZE_N 24) (\<lambda>gc. Inr (Some gc)))
         = Inr (Some g2)"
      by auto
    then show ?thesis using b k unfolding tinyBLAS_matmul_def by (cases vr32) auto
  next
    case c
    then have c4: "m mod (4 * 1) = 0" by simp
    from br[OF c4, of 6 12] br[OF c4, of 3 24] obtain g1 g2 where
      "float_plan g1 m n" "\<forall>ith. bind_err (BLOCK_SIZE 6 n) (\<lambda>SIZE_N.
           bind_err (tinyBLAS_mnpack 4 6 1 ith m n SIZE_N 12) (\<lambda>gc. Inr (Some gc)))
         = Inr (Some g1)"
      "float_plan g2 m n" "\<forall>ith. bind_err (BLOCK_SIZE 3 n) (\<lambda>SIZE_N.
           bind_err (tinyBLAS_mnpack 4 3 1 ith m n SIZE_N 24) (\<lambda>gc. Inr (Some gc)))
         = Inr (Some g2)"
      by auto
    then show ?thesis using c k unfolding tinyBLAS_matmul_def by (cases vr32) auto
  next
    case d
    then show ?thesis using k unfolding tinyBLAS_matmul_def by (cases vr32) auto
  qed
qed

subsection \<open>The jobs partition the output\<close>

lemma distinct_concat_map:
  assumes "distinct xs" "\<forall>x\<in>set xs. distinct (f x)"
    "\<forall>x\<in>set xs. \<forall>y\<in>set xs. x \<noteq> y \<longrightarrow> set (f x) \<inter> set (f y) = {}"
  shows "distinct (concat (map f xs))"
  using assms
proof (induction xs)
  case Nil
  then show ?case by simp
next
  case (Cons a xs)
  have "distinct (concat (map f xs))" using Cons by auto
  moreover have "set (f a) \<inter> (\<Union>x\<in>set xs. set (f x)) = {}" using Cons.prems by fastforce
  ultimately show ?case using Cons.prems by auto
qed

lemma interval_find:
  fixes f :: "int \<Rightarrow> int"
  assumes "f 0 \<le> j" "j < f (int n)"
  shows "\<exists>b. 0 \<le> b \<and> b < int n \<and> f b \<le> j \<and> j < f (b + 1)"
  using assms
proof (induction n)
  case 0
  then show ?case by simp
next
  case (Suc n)
  show ?case
  proof (cases "j < f (int n)")
    case True
    from Suc.IH[OF Suc.prems(1) True] obtain b where
      "0 \<le> b" "b < int n" "f b \<le> j" "j < f (b + 1)" by blast
    then show ?thesis by (intro exI[of _ b]) simp
  next
    case False
    then have "f (int n) \<le> j" by simp
    moreover have "j < f (int n + 1)" using Suc.prems(2) by (simp add: add.commute)
    ultimately show ?thesis by (intro exI[of _ "int n"]) simp
  qed
qed

lemma int_div_less:
  fixes i h q :: int
  assumes "0 < h" "i < q * h"
  shows "i div h < q"
proof (rule ccontr)
  assume "\<not> i div h < q"
  then have "q * h \<le> i div h * h" using assms(1) by (intro mult_right_mono) auto
  moreover have "i = i div h * h + i mod h" by simp
  moreover have "0 \<le> i mod h" using assms(1) by simp
  ultimately show False using assms(2) by linarith
qed

lemma col_start_mono:
  assumes "float_plan gc m n" "a \<le> b"
  shows "col_start gc a \<le> col_start gc b"
proof -
  have r: "1 \<le> RN gc" "1 \<le> SIZE_BN gc" using assms(1) by (simp_all add: float_plan_def)
  show ?thesis
    unfolding col_start_def
    by (intro BLOC_POS_mono[OF r(1)] BLOC_POS_mono[OF r(2)] assms(2))
qed

lemma job_split:
  assumes "float_plan gc m n" "0 \<le> job" "job < nb_job gc"
  shows "0 < ytiles gc" "0 \<le> job mod ytiles gc" "job mod ytiles gc < ytiles gc"
        "0 \<le> job div ytiles gc" "job div ytiles gc < NB_BN gc"
proof -
  have p: "0 \<le> ytiles gc" "0 \<le> NB_BN gc" "nb_job gc = ytiles gc * NB_BN gc"
    using assms(1) by (simp_all add: float_plan_def)
  have "ytiles gc \<noteq> 0" using assms(2,3) p by auto
  then show y: "0 < ytiles gc" using p by simp
  then show "0 \<le> job mod ytiles gc" "job mod ytiles gc < ytiles gc" by simp_all
  show "0 \<le> job div ytiles gc" using y assms(2) by (simp add: pos_imp_zdiv_nonneg_iff)
  have "job < NB_BN gc * ytiles gc" using assms(3) p by (simp add: mult.commute)
  then show "job div ytiles gc < NB_BN gc" using y by (intro int_div_less)
qed

lemma band_bounds:
  fixes h yb yt :: int
  assumes "0 < h" "0 \<le> yb" "yb < yt"
  shows "0 \<le> yb * h" "yb * h + h \<le> yt * h"
proof -
  show "0 \<le> yb * h" using assms by simp
  have "(yb + 1) * h \<le> yt * h" using assms by (intro mult_right_mono) auto
  then show "yb * h + h \<le> yt * h" by (simp add: algebra_simps)
qed

lemma band_disjoint:
  fixes h a b :: int
  assumes "0 < h" "a \<noteq> b"
  shows "{a * h..<a * h + h} \<inter> {b * h..<b * h + h} = {}"
proof -
  have r: "x * h + h \<le> y * h" if "x < y" for x y :: int
  proof -
    have "(x + 1) * h \<le> y * h" using that assms(1) by (intro mult_right_mono) auto
    then show ?thesis by (simp add: algebra_simps)
  qed
  consider "a < b" | "b < a" using assms(2) by linarith
  then show ?thesis
  proof cases
    case 1
    from r[OF this] show ?thesis by auto
  next
    case 2
    from r[OF this] show ?thesis by auto
  qed
qed

lemma job_rect_rows:
  "job_rect gc job =
     {job mod ytiles gc * (RM gc * BM gc) ..< job mod ytiles gc * (RM gc * BM gc) + RM gc * BM gc}
       \<times> {col_start gc (job div ytiles gc) ..< col_start gc (job div ytiles gc + 1)}"
  by (simp add: job_rect_def ac_simps)

lemma job_rect_sub:
  assumes "float_plan gc m n" "0 \<le> job" "job < nb_job gc"
  shows "job_rect gc job \<subseteq> {0..<m} \<times> {0..<n}"
proof -
  note j = job_split[OF assms]
  define h where "h = RM gc * BM gc"
  have h: "0 < h" "ytiles gc * h = m" using assms(1) by (simp_all add: float_plan_def h_def)
  note b = band_bounds[OF h(1) j(2,3)]
  have c0: "0 \<le> col_start gc (job div ytiles gc)"
    using col_start_mono[OF assms(1) j(4)] assms(1) by (simp add: float_plan_def)
  have "job div ytiles gc + 1 \<le> NB_BN gc" using j(5) by simp
  from col_start_mono[OF assms(1) this]
  have c1: "col_start gc (job div ytiles gc + 1) \<le> n" using assms(1) by (simp add: float_plan_def)
  show ?thesis
    unfolding job_rect_rows h_def[symmetric] using b c0 c1 h(2) by auto
qed

lemma job_rect_disjoint:
  assumes "float_plan gc m n" "0 \<le> j1" "j1 < nb_job gc" "0 \<le> j2" "j2 < nb_job gc" "j1 \<noteq> j2"
  shows "job_rect gc j1 \<inter> job_rect gc j2 = {}"
proof -
  define h where "h = RM gc * BM gc"
  have h: "0 < h" using assms(1) by (simp add: float_plan_def h_def)
  show ?thesis
  proof (cases "j1 mod ytiles gc = j2 mod ytiles gc")
    case False
    from band_disjoint[OF h False] show ?thesis
      unfolding job_rect_rows h_def[symmetric] by auto
  next
    case True
    have "j1 div ytiles gc \<noteq> j2 div ytiles gc"
    proof
      assume "j1 div ytiles gc = j2 div ytiles gc"
      then have "j1 div ytiles gc * ytiles gc + j1 mod ytiles gc
                 = j2 div ytiles gc * ytiles gc + j2 mod ytiles gc"
        using True by simp
      then show False using assms(6) by (simp only: div_mult_mod_eq)
    qed
    then consider "j1 div ytiles gc + 1 \<le> j2 div ytiles gc" | "j2 div ytiles gc + 1 \<le> j1 div ytiles gc"
      by linarith
    then show ?thesis
    proof cases
      case 1
      from col_start_mono[OF assms(1) this] show ?thesis
        unfolding job_rect_rows by auto
    next
      case 2
      from col_start_mono[OF assms(1) this] show ?thesis
        unfolding job_rect_rows by auto
    qed
  qed
qed

lemma job_rect_cover:
  assumes "float_plan gc m n" "c \<in> {0..<m} \<times> {0..<n}"
  shows "\<exists>job. 0 \<le> job \<and> job < nb_job gc \<and> c \<in> job_rect gc job"
proof -
  define h where "h = RM gc * BM gc"
  have h: "0 < h" "ytiles gc * h = m" using assms(1) by (simp_all add: float_plan_def h_def)
  have p: "0 \<le> NB_BN gc" "nb_job gc = ytiles gc * NB_BN gc"
      "col_start gc 0 = 0" "col_start gc (NB_BN gc) = n"
    using assms(1) by (simp_all add: float_plan_def)
  obtain i j where c: "c = (i, j)" "0 \<le> i" "i < m" "0 \<le> j" "j < n" using assms(2) by auto
  define yb where "yb = i div h"
  have yb0: "0 \<le> yb" using c(2) h(1) by (simp add: yb_def pos_imp_zdiv_nonneg_iff)
  have "i < ytiles gc * h" using c(3) h(2) by simp
  then have ybN: "yb < ytiles gc" unfolding yb_def using h(1) by (intro int_div_less)
  have im: "i = yb * h + i mod h" by (simp add: yb_def)
  have "0 \<le> i mod h" "i mod h < h" using h(1) by simp_all
  then have row: "yb * h \<le> i" "i < yb * h + h" using im by linarith+
  have "col_start gc 0 \<le> j" "j < col_start gc (int (nat (NB_BN gc)))"
    using p c(4,5) by simp_all
  from interval_find[OF this] obtain jb where
    jb: "0 \<le> jb" "jb < NB_BN gc" "col_start gc jb \<le> j" "j < col_start gc (jb + 1)"
    using p(1) by auto
  define job where "job = jb * ytiles gc + yb"
  have y: "0 < ytiles gc" using yb0 ybN by simp
  have dm: "job mod ytiles gc = yb" "job div ytiles gc = jb"
    using yb0 ybN by (simp_all add: job_def)
  have j0: "0 \<le> job" using jb(1) yb0 y by (simp add: job_def)
  have "(jb + 1) * ytiles gc \<le> NB_BN gc * ytiles gc"
    using jb(2) y by (intro mult_right_mono) auto
  then have jN: "job < nb_job gc" using ybN by (simp add: job_def p(2) algebra_simps)
  have "c \<in> job_rect gc job"
    unfolding job_rect_rows dm h_def[symmetric] using row jb c(1) by simp
  then show ?thesis using j0 jN by blast
qed

text \<open>The jobs of the floating-point gemm, in any order, cover \<open>[0, m) \<times> [0, n)\<close> once.\<close>

lemma float_jobs_partition:
  fixes cs_of :: "int \<Rightarrow> cell list"
  assumes "float_plan gc m n" "mset js = mset [0..nb_job gc - 1]"
    "\<forall>job\<in>set js. distinct (cs_of job) \<and> set (cs_of job) = job_rect gc job"
  shows "distinct (concat (map cs_of js))" "set (concat (map cs_of js)) = {0..<m} \<times> {0..<n}"
proof -
  have d: "distinct js" using assms(2) mset_eq_imp_distinct_iff[OF assms(2)] by simp
  have s: "set js = {0..nb_job gc - 1}" using mset_eq_setD[OF assms(2)] by simp
  show "distinct (concat (map cs_of js))"
  proof (rule distinct_concat_map[OF d])
    show "\<forall>x\<in>set js. distinct (cs_of x)" using assms(3) by simp
    show "\<forall>x\<in>set js. \<forall>y\<in>set js. x \<noteq> y \<longrightarrow> set (cs_of x) \<inter> set (cs_of y) = {}"
      using assms(3) job_rect_disjoint[OF assms(1)] s by auto
  qed
  have "set (concat (map cs_of js)) = (\<Union>job\<in>set js. job_rect gc job)"
    using assms(3) by auto
  also have "\<dots> = {0..<m} \<times> {0..<n}"
  proof (intro equalityI subsetI)
    fix c assume "c \<in> (\<Union>job\<in>set js. job_rect gc job)"
    then obtain job where "job \<in> set js" "c \<in> job_rect gc job" by blast
    then show "c \<in> {0..<m} \<times> {0..<n}"
      using job_rect_sub[OF assms(1), of job] s by auto
  next
    fix c assume "c \<in> {0..<m} \<times> {0..<n}"
    from job_rect_cover[OF assms(1) this] obtain job where
      "0 \<le> job" "job < nb_job gc" "c \<in> job_rect gc job" by blast
    then show "c \<in> (\<Union>job\<in>set js. job_rect gc job)" using s by auto
  qed
  finally show "set (concat (map cs_of js)) = {0..<m} \<times> {0..<n}" .
qed

subsection \<open>What the entry point decides\<close>

lemma decided_none: "decided m n k (\<lambda>ith. Inr None)"
  by (simp add: decided_def)

lemma decided_quant: "decided m n k (\<lambda>ith. Inr (Some (Quant_kernel TA TB)))"
  by (auto simp: decided_def)

lemma decided_if:
  assumes "c \<Longrightarrow> decided m n k F" "\<not> c \<Longrightarrow> decided m n k G"
  shows "decided m n k (\<lambda>ith. if c then F ith else G ith)"
  using assms by (cases c) simp_all

lemma decided_case:
  assumes "decided m n k F1" "decided m n k F2" "decided m n k F3" "decided m n k F4"
    "decided m n k F5" "decided m n k F6" "decided m n k F7" "decided m n k F8"
  shows "decided m n k (\<lambda>ith. case t of GGML_TYPE_F32 \<Rightarrow> F1 ith | GGML_TYPE_F16 \<Rightarrow> F2 ith
           | GGML_TYPE_BF16 \<Rightarrow> F3 ith | GGML_TYPE_Q8_0 \<Rightarrow> F4 ith | GGML_TYPE_Q4_0 \<Rightarrow> F5 ith
           | GGML_TYPE_Q5_0 \<Rightarrow> F6 ith | GGML_TYPE_IQ4_NL \<Rightarrow> F7 ith | GGML_TYPE_OTHER \<Rightarrow> F8 ith)"
  using assms by (cases t) simp_all

lemma decided_run:
  assumes "0 \<le> m" "\<not> n < 2" "0 < KN"
  shows "decided m n k (\<lambda>ith. run_tinyBLAS cf KN k ith nthreads m n)"
proof -
  have n: "1 \<le> n" using assms(2) by simp
  from matmul_cases[OF assms(1) n, of "VECTOR_REGISTERS cf = 32" KN k nthreads]
  show ?thesis
  proof
    assume "\<forall>ith. tinyBLAS_matmul (VECTOR_REGISTERS cf = 32) KN k ith nthreads m n = Inr None"
    then show ?thesis by (simp add: decided_def run_tinyBLAS_def bind_err_def)
  next
    assume "\<exists>gc. float_plan gc m n \<and> k mod KN = 0 \<and>
         (\<forall>ith. tinyBLAS_matmul (VECTOR_REGISTERS cf = 32) KN k ith nthreads m n = Inr (Some gc))"
    then obtain gc where "float_plan gc m n" "k mod KN = 0"
      "\<forall>ith. tinyBLAS_matmul (VECTOR_REGISTERS cf = 32) KN k ith nthreads m n = Inr (Some gc)"
      by auto
    then have X: "0 < KN \<and> k mod KN = 0 \<and> float_plan gc m n
             \<and> (\<forall>ith. run_tinyBLAS cf KN k ith nthreads m n = Inr (Some (Float_kernel KN gc)))"
      using assms(3) by (simp add: run_tinyBLAS_def bind_err_def)
    show ?thesis unfolding decided_def
      by (rule disjI2, rule disjI2, rule exI[of _ KN], rule exI[of _ gc], rule X)
  qed
qed

text \<open>The entry point decides the same for every worker of a call.\<close>

lemma sgemm_decided:
  assumes "0 \<le> m"
  shows "decided m n k (\<lambda>ith. llamafile_sgemm cf ith nthreads m n k Atype Btype Ctype)"
  unfolding llamafile_sgemm_def
  by (intro decided_if decided_case decided_none decided_quant decided_run assms) simp_all

subsection \<open>Runs of the floating-point engine\<close>

lemma held_split:
  assumes "w < length xs"
  shows "held xs = hold w (xs ! w) + held_but {w} xs"
proof -
  have "w \<in> {..<length xs}" using assms by simp
  then show ?thesis
    unfolding held_def held_but_def by (simp add: sum.remove)
qed

lemma held_but_update: "held_but {w} (xs[w := x]) = held_but {w} xs"
  unfolding held_but_def by (rule sum.cong) auto

lemma held_update:
  assumes "w < length xs"
  shows "held (xs[w := x]) = hold w x + held_but {w} xs"
  using held_split[of w "xs[w := x]"] assms by (simp add: held_but_update)

lemma held_replicate: "held (replicate n Entered) = mset [0..int n - 1]"
proof -
  have "held (replicate n Entered) = (\<Sum>w\<in>{..<n}. {#int w#})"
    unfolding held_def held_but_def by (simp add: hold_def)
  also have "\<dots> = mset [0..int n - 1]"
  proof (induction n)
    case 0
    then show ?case by simp
  next
    case (Suc n)
    have "[0..int (Suc n) - 1] = [0..int n - 1] @ [int n]"
      using upto_rec2[of 0 "int n"] by simp
    then show ?case using Suc by (simp add: lessThan_Suc)
  qed
  finally show ?thesis .
qed

lemma filter_upto_below:
  fixes a b :: int
  shows "filter (\<lambda>j. j < b) [0..a - 1] = [0..min a b - 1]"
proof (cases "a \<le> b")
  case True
  then have "filter (\<lambda>j. j < b) [0..a - 1] = [0..a - 1]" by (intro filter_True) auto
  then show ?thesis using True by (simp add: min_def)
next
  case False
  show ?thesis
  proof (cases "0 \<le> b")
    case True
    have "[0..a - 1] = [0..b - 1] @ [b..a - 1]"
      using upto_split1[of 0 b "a - 1"] True False by simp
    moreover have "filter (\<lambda>j. j < b) [0..b - 1] = [0..b - 1]" by (intro filter_True) auto
    moreover have "filter (\<lambda>j. j < b) [b..a - 1] = []" by (intro filter_False) auto
    ultimately show ?thesis using False by (simp add: min_def)
  next
    case b: False
    have "filter (\<lambda>j. j < b) [0..a - 1] = []" using b by (intro filter_False) auto
    then show ?thesis using False b by (simp add: min_def)
  qed
qed

lemma upto_next:
  fixes c b :: int
  assumes "0 \<le> c"
  shows "mset [0..min (c + 1) b - 1] = mset [0..min c b - 1] + (if c < b then {#c#} else {#})"
proof (cases "c < b")
  case True
  have "[0..c] = [0..c - 1] @ [c]" using upto_rec2[of 0 c] assms by simp
  then show ?thesis using True by (simp add: min_def)
next
  case False
  then show ?thesis by (simp add: min_def)
qed

text \<open>The steps of a worker of the floating-point engine.\<close>

lemma step_outside: "length (workers s) \<le> w \<Longrightarrow> worker_step c w s = s"
  by (simp add: worker_step_def)

lemma step_entered_float:
  assumes "w < length (workers s)" "workers s ! w = Entered"
    "llamafile_sgemm (c_cf c) (int w) (int (length (workers s))) (c_m c) (c_n c) (c_k c)
        (c_Atype c) (c_Btype c) (c_Ctype c) = Inr (Some (Float_kernel KN gc))"
  shows "worker_step c w s
         = set_worker w (At_barrier KN gc)
             (if w = 0 then s\<lparr>chunk := int (length (workers s))\<rparr> else s)"
  using assms by (simp add: worker_step_def Let_def ggml_threadpool_chunk_set_def)

lemma step_barrier:
  assumes "w < length (workers s)" "workers s ! w = At_barrier KN gc"
  shows "worker_step c w s
         = (if Entered \<in> set (workers s) then s else set_worker w (In_gemm KN gc (int w)) s)"
  using assms by (auto simp: worker_step_def Let_def before_open_def)

lemma step_job:
  assumes "w < length (workers s)" "workers s ! w = In_gemm KN gc job" "job < nb_job gc"
    "gemm_job (c_vops c) KN (c_k c) (c_lda c) (c_ldb c) gc job = Inr ws"
  shows "worker_step c w s
         = set_worker w (In_gemm KN gc (chunk s)) (s\<lparr>written := written s @ ws, chunk := chunk s + 1\<rparr>)"
  using assms by (simp add: worker_step_def Let_def ggml_threadpool_chunk_add_def)

lemma step_last:
  assumes "w < length (workers s)" "workers s ! w = In_gemm KN gc job" "\<not> job < nb_job gc"
  shows "worker_step c w s = set_worker w At_end s"
  using assms by (simp add: worker_step_def Let_def)

lemma step_end:
  assumes "w < length (workers s)" "workers s ! w = At_end"
  shows "worker_step c w s
         = (if \<exists>x\<in>set (workers s). before_close x then s else set_worker w (Returned True) s)"
  using assms by (simp add: worker_step_def Let_def)

lemma step_returned:
  assumes "w < length (workers s)" "workers s ! w = Returned b"
  shows "worker_step c w s = s"
  using assms by (simp add: worker_step_def Let_def)

lemma set_worker_simps [simp]:
  "workers (set_worker w x s) = (workers s)[w := x]"
  "chunk (set_worker w x s) = chunk s"
  "written (set_worker w x s) = written s"
  by (simp_all add: set_worker_def)

lemma in_set_update:
  "y \<in> set (xs[w := x]) \<Longrightarrow> y = x \<or> y \<in> set xs"
  using set_update_subset_insert[of xs w x] by auto

lemma float_invI:
  assumes "\<forall>x\<in>set (workers s). x = Entered \<or> x = At_barrier KN gc \<or> (\<exists>j. x = In_gemm KN gc j)
                               \<or> x = At_end \<or> x = Returned True"
    "Entered \<in> set (workers s) \<Longrightarrow>
             (\<forall>x\<in>set (workers s). x = Entered \<or> x = At_barrier KN gc)
             \<and> written s = [] \<and> eff_chunk s = int (length (workers s))"
    "int (length (workers s)) \<le> eff_chunk s"
    "\<forall>j\<in>#held (workers s). 0 \<le> j \<and> j < eff_chunk s"
    "At_end \<in> set (workers s) \<or> Returned True \<in> set (workers s) \<Longrightarrow> nb_job gc \<le> eff_chunk s"
    "written s = concat (map W js)"
    "mset js + filter_mset (\<lambda>j. j < nb_job gc) (held (workers s))
                   = mset [0..min (eff_chunk s) (nb_job gc) - 1]"
  shows "float_inv W KN gc s"
  unfolding float_inv_def using assms by blast

lemma float_invD:
  assumes "float_inv W KN gc s"
  shows "\<forall>x\<in>set (workers s). x = Entered \<or> x = At_barrier KN gc \<or> (\<exists>j. x = In_gemm KN gc j)
                               \<or> x = At_end \<or> x = Returned True"
    "Entered \<in> set (workers s) \<Longrightarrow>
             (\<forall>x\<in>set (workers s). x = Entered \<or> x = At_barrier KN gc)
             \<and> written s = [] \<and> eff_chunk s = int (length (workers s))"
    "int (length (workers s)) \<le> eff_chunk s"
    "\<forall>j\<in>#held (workers s). 0 \<le> j \<and> j < eff_chunk s"
    "At_end \<in> set (workers s) \<or> Returned True \<in> set (workers s) \<Longrightarrow> nb_job gc \<le> eff_chunk s"
    "\<exists>js. written s = concat (map W js)
               \<and> mset js + filter_mset (\<lambda>j. j < nb_job gc) (held (workers s))
                   = mset [0..min (eff_chunk s) (nb_job gc) - 1]"
  using assms unfolding float_inv_def by blast+

text \<open>Entering: the worker reaches the first barrier; thread 0 sets the chunk counter.\<close>

lemma float_inv_enter:
  assumes inv: "float_inv W KN gc s" and w: "w < length (workers s)" "workers s ! w = Entered"
  defines "s' \<equiv> set_worker w (At_barrier KN gc)
                   (if w = 0 then s\<lparr>chunk := int (length (workers s))\<rparr> else s)"
  shows "float_inv W KN gc s'"
proof -
  note d = float_invD[OF inv]
  have E: "Entered \<in> set (workers s)" using w nth_mem by metis
  note a = d(2)[OF E]
  have ws: "workers s' = (workers s)[w := At_barrier KN gc]" "written s' = []"
    using a by (simp_all add: s'_def)
  have len: "length (workers s') = length (workers s)" by (simp add: ws)
  have eff: "eff_chunk s' = int (length (workers s))"
  proof (cases "w = 0")
    case True
    then show ?thesis using w by (simp add: eff_chunk_def s'_def)
  next
    case False
    then have "workers s' ! 0 = workers s ! 0" "chunk s' = chunk s" by (simp_all add: s'_def)
    then show ?thesis using a len by (auto simp: eff_chunk_def split: if_splits)
  qed
  have h: "held (workers s') = held (workers s)"
    unfolding ws held_update[OF w(1)] held_split[OF w(1)] w(2) by (simp add: hold_def)
  have all: "\<forall>x\<in>set (workers s'). x = Entered \<or> x = At_barrier KN gc"
    using a unfolding ws by (auto dest: in_set_update)
  obtain js where js: "written s = concat (map W js)"
      "mset js + filter_mset (\<lambda>j. j < nb_job gc) (held (workers s))
                   = mset [0..min (eff_chunk s) (nb_job gc) - 1]"
    using d(6) by blast
  show ?thesis
  proof (rule float_invI[where js = js])
    show "\<forall>x\<in>set (workers s'). x = Entered \<or> x = At_barrier KN gc \<or> (\<exists>j. x = In_gemm KN gc j)
                               \<or> x = At_end \<or> x = Returned True"
      using all by blast
    show "(\<forall>x\<in>set (workers s'). x = Entered \<or> x = At_barrier KN gc)
             \<and> written s' = [] \<and> eff_chunk s' = int (length (workers s'))"
      using all ws eff len by simp
    show "int (length (workers s')) \<le> eff_chunk s'" using eff len by simp
    show "\<forall>j\<in>#held (workers s'). 0 \<le> j \<and> j < eff_chunk s'"
      using d(4) a unfolding h eff by simp
    show "nb_job gc \<le> eff_chunk s'" if "At_end \<in> set (workers s') \<or> Returned True \<in> set (workers s')"
      using that all by auto
    show "written s' = concat (map W js)" using js(1) a ws by simp
    show "mset js + filter_mset (\<lambda>j. j < nb_job gc) (held (workers s'))
                   = mset [0..min (eff_chunk s') (nb_job gc) - 1]"
      using js(2) a unfolding h eff by simp
  qed
qed

lemma no_entered:
  assumes "float_inv W KN gc s" "w < length (workers s)"
    "workers s ! w \<noteq> Entered" "\<forall>KN gc. workers s ! w \<noteq> At_barrier KN gc"
  shows "Entered \<notin> set (workers s)"
proof
  assume "Entered \<in> set (workers s)"
  from float_invD(2)[OF assms(1) this] have "\<forall>x\<in>set (workers s). x = Entered \<or> x = At_barrier KN gc"
    by simp
  moreover have "workers s ! w \<in> set (workers s)" using assms(2) by simp
  ultimately show False using assms(3,4) by blast
qed

lemma eff_chunk_running:
  assumes "Entered \<notin> set (workers s)" "0 < length (workers s)"
  shows "eff_chunk s = chunk s"
proof -
  have "workers s ! 0 \<in> set (workers s)" using assms(2) by simp
  then have "workers s ! 0 \<noteq> Entered" using assms(1) by metis
  then show ?thesis by (simp add: eff_chunk_def)
qed

text \<open>Passing the first barrier: the worker starts with the job of its own number.\<close>

lemma float_inv_open:
  assumes inv: "float_inv W KN gc s" and w: "w < length (workers s)" "workers s ! w = At_barrier KN' gc'"
    and ne: "Entered \<notin> set (workers s)"
  defines "s' \<equiv> set_worker w (In_gemm KN' gc' (int w)) s"
  shows "float_inv W KN gc s'"
proof -
  note d = float_invD[OF inv]
  have "workers s ! w \<in> set (workers s)" using w(1) by simp
  then have kg: "KN' = KN" "gc' = gc" using d(1) w(2) by auto
  have ws: "workers s' = (workers s)[w := In_gemm KN gc (int w)]" "written s' = written s"
      "chunk s' = chunk s"
    by (simp_all add: s'_def kg)
  have len: "length (workers s') = length (workers s)" by (simp add: ws)
  have ne': "Entered \<notin> set (workers s')" using ne unfolding ws by (auto dest: in_set_update)
  have pos: "0 < length (workers s)" using w(1) by (cases "workers s") simp_all
  have eff: "eff_chunk s' = eff_chunk s"
    using eff_chunk_running[OF ne pos] eff_chunk_running[OF ne'] pos len ws(3) by simp
  have h: "held (workers s') = held (workers s)"
    unfolding ws held_update[OF w(1)] held_split[OF w(1)] w(2) by (simp add: hold_def)
  obtain js where js: "written s = concat (map W js)"
      "mset js + filter_mset (\<lambda>j. j < nb_job gc) (held (workers s))
                   = mset [0..min (eff_chunk s) (nb_job gc) - 1]"
    using d(6) by blast
  show ?thesis
  proof (rule float_invI[where js = js])
    show "\<forall>x\<in>set (workers s'). x = Entered \<or> x = At_barrier KN gc \<or> (\<exists>j. x = In_gemm KN gc j)
                               \<or> x = At_end \<or> x = Returned True"
      using d(1) unfolding ws by (auto dest: in_set_update)
    show "(\<forall>x\<in>set (workers s'). x = Entered \<or> x = At_barrier KN gc)
             \<and> written s' = [] \<and> eff_chunk s' = int (length (workers s'))"
      if "Entered \<in> set (workers s')"
      using that ne' by simp
    show "int (length (workers s')) \<le> eff_chunk s'" using d(3) eff len by simp
    show "\<forall>j\<in>#held (workers s'). 0 \<le> j \<and> j < eff_chunk s'"
      using d(4) unfolding h eff by simp
    show "nb_job gc \<le> eff_chunk s'" if "At_end \<in> set (workers s') \<or> Returned True \<in> set (workers s')"
    proof -
      have "At_end \<in> set (workers s) \<or> Returned True \<in> set (workers s)"
        using that unfolding ws by (auto dest: in_set_update)
      then show ?thesis using d(5) eff by simp
    qed
    show "written s' = concat (map W js)" using js(1) ws by simp
    show "mset js + filter_mset (\<lambda>j. j < nb_job gc) (held (workers s'))
                   = mset [0..min (eff_chunk s') (nb_job gc) - 1]"
      using js(2) unfolding h eff by simp
  qed
qed

text \<open>One job: its writes are appended and the next job is fetched from the counter.\<close>

lemma float_inv_job:
  assumes inv: "float_inv W KN gc s" and w: "w < length (workers s)" "workers s ! w = In_gemm KN' gc' job"
    and lt: "job < nb_job gc"
  defines "s' \<equiv> set_worker w (In_gemm KN' gc' (chunk s))
                   (s\<lparr>written := written s @ W job, chunk := chunk s + 1\<rparr>)"
  shows "float_inv W KN gc s'"
proof -
  note d = float_invD[OF inv]
  have "workers s ! w \<in> set (workers s)" using w(1) by simp
  then have kg: "KN' = KN" "gc' = gc" using d(1) w(2) by auto
  have ne: "Entered \<notin> set (workers s)" using no_entered[OF inv w(1)] w(2) by simp
  have ws: "workers s' = (workers s)[w := In_gemm KN gc (chunk s)]" "written s' = written s @ W job"
      "chunk s' = chunk s + 1"
    by (simp_all add: s'_def kg)
  have len: "length (workers s') = length (workers s)" by (simp add: ws)
  have ne': "Entered \<notin> set (workers s')" using ne unfolding ws by (auto dest: in_set_update)
  have pos: "0 < length (workers s)" using w(1) by (cases "workers s") simp_all
  have eff: "eff_chunk s = chunk s" "eff_chunk s' = chunk s + 1"
    using eff_chunk_running[OF ne pos] eff_chunk_running[OF ne'] pos len ws(3) by simp_all
  define R where "R = held_but {w} (workers s)"
  have h: "held (workers s) = {#job#} + R" "held (workers s') = {#chunk s#} + R"
    unfolding ws held_update[OF w(1)] held_split[OF w(1)] w(2) R_def by (simp_all add: hold_def)
  have c0: "0 \<le> chunk s" using d(3) eff by simp
  obtain js where js: "written s = concat (map W js)"
      "mset js + filter_mset (\<lambda>j. j < nb_job gc) (held (workers s))
                   = mset [0..min (eff_chunk s) (nb_job gc) - 1]"
    using d(6) by blast
  show ?thesis
  proof (rule float_invI[where js = "js @ [job]"])
    show "\<forall>x\<in>set (workers s'). x = Entered \<or> x = At_barrier KN gc \<or> (\<exists>j. x = In_gemm KN gc j)
                               \<or> x = At_end \<or> x = Returned True"
      using d(1) unfolding ws by (auto dest: in_set_update)
    show "(\<forall>x\<in>set (workers s'). x = Entered \<or> x = At_barrier KN gc)
             \<and> written s' = [] \<and> eff_chunk s' = int (length (workers s'))"
      if "Entered \<in> set (workers s')"
      using that ne' by simp
    show "int (length (workers s')) \<le> eff_chunk s'" using d(3) eff len by simp
    show "\<forall>j\<in>#held (workers s'). 0 \<le> j \<and> j < eff_chunk s'"
      using d(4) c0 unfolding h eff by auto
    show "nb_job gc \<le> eff_chunk s'" if "At_end \<in> set (workers s') \<or> Returned True \<in> set (workers s')"
    proof -
      have "At_end \<in> set (workers s) \<or> Returned True \<in> set (workers s)"
        using that unfolding ws by (auto dest: in_set_update)
      then show ?thesis using d(5) eff by simp
    qed
    show "written s' = concat (map W (js @ [job]))" using js(1) ws by simp
    have "mset (js @ [job]) + filter_mset (\<lambda>j. j < nb_job gc) (held (workers s'))
          = (mset js + filter_mset (\<lambda>j. j < nb_job gc) (held (workers s)))
            + (if chunk s < nb_job gc then {#chunk s#} else {#})"
      unfolding h using lt by simp
    also have "\<dots> = mset [0..min (chunk s + 1) (nb_job gc) - 1]"
      unfolding js(2) eff upto_next[OF c0] by simp
    finally show "mset (js @ [job]) + filter_mset (\<lambda>j. j < nb_job gc) (held (workers s'))
                   = mset [0..min (eff_chunk s') (nb_job gc) - 1]"
      unfolding eff .
  qed
qed

text \<open>Leaving the job loop.\<close>

lemma float_inv_last:
  assumes inv: "float_inv W KN gc s" and w: "w < length (workers s)" "workers s ! w = In_gemm KN' gc' job"
    and ge: "\<not> job < nb_job gc"
  defines "s' \<equiv> set_worker w At_end s"
  shows "float_inv W KN gc s'"
proof -
  note d = float_invD[OF inv]
  have ne: "Entered \<notin> set (workers s)" using no_entered[OF inv w(1)] w(2) by simp
  have ws: "workers s' = (workers s)[w := At_end]" "written s' = written s" "chunk s' = chunk s"
    by (simp_all add: s'_def)
  have len: "length (workers s') = length (workers s)" by (simp add: ws)
  have ne': "Entered \<notin> set (workers s')" using ne unfolding ws by (auto dest: in_set_update)
  have pos: "0 < length (workers s)" using w(1) by (cases "workers s") simp_all
  have eff: "eff_chunk s' = eff_chunk s"
    using eff_chunk_running[OF ne pos] eff_chunk_running[OF ne'] pos len ws(3) by simp
  define R where "R = held_but {w} (workers s)"
  have h: "held (workers s) = {#job#} + R" "held (workers s') = R"
    unfolding ws held_update[OF w(1)] held_split[OF w(1)] w(2) R_def by (simp_all add: hold_def)
  have jb: "job < eff_chunk s" using d(4) unfolding h by simp
  obtain js where js: "written s = concat (map W js)"
      "mset js + filter_mset (\<lambda>j. j < nb_job gc) (held (workers s))
                   = mset [0..min (eff_chunk s) (nb_job gc) - 1]"
    using d(6) by blast
  show ?thesis
  proof (rule float_invI[where js = js])
    show "\<forall>x\<in>set (workers s'). x = Entered \<or> x = At_barrier KN gc \<or> (\<exists>j. x = In_gemm KN gc j)
                               \<or> x = At_end \<or> x = Returned True"
      using d(1) unfolding ws by (auto dest: in_set_update)
    show "(\<forall>x\<in>set (workers s'). x = Entered \<or> x = At_barrier KN gc)
             \<and> written s' = [] \<and> eff_chunk s' = int (length (workers s'))"
      if "Entered \<in> set (workers s')"
      using that ne' by simp
    show "int (length (workers s')) \<le> eff_chunk s'" using d(3) eff len by simp
    show "\<forall>j\<in>#held (workers s'). 0 \<le> j \<and> j < eff_chunk s'"
      using d(4) unfolding h eff by auto
    show "nb_job gc \<le> eff_chunk s'" using jb ge eff by simp
    show "written s' = concat (map W js)" using js(1) ws by simp
    show "mset js + filter_mset (\<lambda>j. j < nb_job gc) (held (workers s'))
                   = mset [0..min (eff_chunk s') (nb_job gc) - 1]"
      using js(2) ge unfolding h eff by simp
  qed
qed

text \<open>Passing the last barrier.\<close>

lemma float_inv_return:
  assumes inv: "float_inv W KN gc s" and w: "w < length (workers s)" "workers s ! w = At_end"
  defines "s' \<equiv> set_worker w (Returned True) s"
  shows "float_inv W KN gc s'"
proof -
  note d = float_invD[OF inv]
  have ne: "Entered \<notin> set (workers s)" using no_entered[OF inv w(1)] w(2) by simp
  have ws: "workers s' = (workers s)[w := Returned True]" "written s' = written s" "chunk s' = chunk s"
    by (simp_all add: s'_def)
  have len: "length (workers s') = length (workers s)" by (simp add: ws)
  have ne': "Entered \<notin> set (workers s')" using ne unfolding ws by (auto dest: in_set_update)
  have pos: "0 < length (workers s)" using w(1) by (cases "workers s") simp_all
  have eff: "eff_chunk s' = eff_chunk s"
    using eff_chunk_running[OF ne pos] eff_chunk_running[OF ne'] pos len ws(3) by simp
  have h: "held (workers s') = held (workers s)"
    unfolding ws held_update[OF w(1)] held_split[OF w(1)] w(2) by (simp add: hold_def)
  have "workers s ! w \<in> set (workers s)" using w(1) by simp
  then have "At_end \<in> set (workers s)" using w(2) by simp
  then have nb: "nb_job gc \<le> eff_chunk s" using d(5) by simp
  obtain js where js: "written s = concat (map W js)"
      "mset js + filter_mset (\<lambda>j. j < nb_job gc) (held (workers s))
                   = mset [0..min (eff_chunk s) (nb_job gc) - 1]"
    using d(6) by blast
  show ?thesis
  proof (rule float_invI[where js = js])
    show "\<forall>x\<in>set (workers s'). x = Entered \<or> x = At_barrier KN gc \<or> (\<exists>j. x = In_gemm KN gc j)
                               \<or> x = At_end \<or> x = Returned True"
      using d(1) unfolding ws by (auto dest: in_set_update)
    show "(\<forall>x\<in>set (workers s'). x = Entered \<or> x = At_barrier KN gc)
             \<and> written s' = [] \<and> eff_chunk s' = int (length (workers s'))"
      if "Entered \<in> set (workers s')"
      using that ne' by simp
    show "int (length (workers s')) \<le> eff_chunk s'" using d(3) eff len by simp
    show "\<forall>j\<in>#held (workers s'). 0 \<le> j \<and> j < eff_chunk s'"
      using d(4) unfolding h eff by auto
    show "nb_job gc \<le> eff_chunk s'" using nb eff by simp
    show "written s' = concat (map W js)" using js(1) ws by simp
    show "mset js + filter_mset (\<lambda>j. j < nb_job gc) (held (workers s'))
                   = mset [0..min (eff_chunk s') (nb_job gc) - 1]"
      using js(2) unfolding h eff by simp
  qed
qed

lemma worker_step_length: "length (workers (worker_step c w s)) = length (workers s)"
  by (simp add: worker_step_def Let_def ggml_threadpool_chunk_set_def
        ggml_threadpool_chunk_add_def
      split: wstate.splits sum.splits option.splits kernel.splits)

lemma run_pool_length: "length (workers (run_pool c sched s)) = length (workers s)"
  unfolding run_pool_def by (induction sched arbitrary: s) (simp_all add: worker_step_length)

lemma run_pool_Cons: "run_pool c (w # sched) s = run_pool c sched (worker_step c w s)"
  by (simp add: run_pool_def)

lemma float_inv_step:
  assumes inv: "float_inv W KN gc s"
    and dec: "\<And>ith. llamafile_sgemm (c_cf c) ith (int (length (workers s))) (c_m c) (c_n c) (c_k c)
                  (c_Atype c) (c_Btype c) (c_Ctype c) = Inr (Some (Float_kernel KN gc))"
    and job: "\<And>job. 0 \<le> job \<Longrightarrow> job < nb_job gc \<Longrightarrow>
                  gemm_job (c_vops c) KN (c_k c) (c_lda c) (c_ldb c) gc job = Inr (W job)"
  shows "float_inv W KN gc (worker_step c w s)"
proof (cases "w < length (workers s)")
  case False
  then show ?thesis using inv by (simp add: step_outside)
next
  case w: True
  note d = float_invD[OF inv]
  have "workers s ! w \<in> set (workers s)" using w by simp
  then consider (E) "workers s ! w = Entered" | (B) "workers s ! w = At_barrier KN gc"
    | (G) j where "workers s ! w = In_gemm KN gc j" | (A) "workers s ! w = At_end"
    | (R) "workers s ! w = Returned True"
    using d(1) by blast
  then show ?thesis
  proof cases
    case E
    show ?thesis
      unfolding step_entered_float[OF w E dec] by (rule float_inv_enter[OF inv w E])
  next
    case B
    show ?thesis
      unfolding step_barrier[OF w B] using inv float_inv_open[OF inv w B] by simp
  next
    case G
    show ?thesis
    proof (cases "j < nb_job gc")
      case True
      have "j \<in># held (workers s)" unfolding held_split[OF w] G by (simp add: hold_def)
      then have "0 \<le> j" using d(4) by blast
      note jw = job[OF this True]
      show ?thesis
        unfolding step_job[OF w G True jw] by (rule float_inv_job[OF inv w G True])
    next
      case False
      show ?thesis
        unfolding step_last[OF w G False] by (rule float_inv_last[OF inv w G False])
    qed
  next
    case A
    show ?thesis
      unfolding step_end[OF w A] using inv float_inv_return[OF inv w A] by simp
  next
    case R
    show ?thesis unfolding step_returned[OF w R] by (rule inv)
  qed
qed

lemma float_inv_run:
  assumes inv: "float_inv W KN gc s"
    and dec: "\<And>ith. llamafile_sgemm (c_cf c) ith (int (length (workers s))) (c_m c) (c_n c) (c_k c)
                  (c_Atype c) (c_Btype c) (c_Ctype c) = Inr (Some (Float_kernel KN gc))"
    and job: "\<And>job. 0 \<le> job \<Longrightarrow> job < nb_job gc \<Longrightarrow>
                  gemm_job (c_vops c) KN (c_k c) (c_lda c) (c_ldb c) gc job = Inr (W job)"
  shows "float_inv W KN gc (run_pool c sched s)"
  using inv dec
proof (induction sched arbitrary: s)
  case Nil
  then show ?case by (simp add: run_pool_def)
next
  case (Cons w sched)
  have "float_inv W KN gc (worker_step c w s)"
    by (rule float_inv_step[OF Cons.prems(1) Cons.prems(2) job])
  moreover have "\<And>ith. llamafile_sgemm (c_cf c) ith (int (length (workers (worker_step c w s))))
                  (c_m c) (c_n c) (c_k c) (c_Atype c) (c_Btype c) (c_Ctype c)
                = Inr (Some (Float_kernel KN gc))"
    using Cons.prems(2) by (simp add: worker_step_length)
  ultimately show ?case unfolding run_pool_Cons by (rule Cons.IH)
qed

lemma float_inv_init:
  assumes "0 < N"
  shows "float_inv W KN gc (init_pool N c0)"
proof (rule float_invI[where js = "[]"])
  let ?s = "init_pool N c0 :: 'a pool"
  have ws: "workers ?s = replicate N Entered" "written ?s = []" by (simp_all add: init_pool_def)
  have eff: "eff_chunk ?s = int N" using assms by (simp add: eff_chunk_def ws)
  show "\<forall>x\<in>set (workers ?s). x = Entered \<or> x = At_barrier KN gc \<or> (\<exists>j. x = In_gemm KN gc j)
                               \<or> x = At_end \<or> x = Returned True"
    by (simp add: ws)
  show "(\<forall>x\<in>set (workers ?s). x = Entered \<or> x = At_barrier KN gc)
             \<and> written ?s = [] \<and> eff_chunk ?s = int (length (workers ?s))"
    using eff by (simp add: ws)
  show "int (length (workers ?s)) \<le> eff_chunk ?s" using eff by (simp add: ws)
  show "\<forall>j\<in>#held (workers ?s). 0 \<le> j \<and> j < eff_chunk ?s"
    unfolding ws held_replicate eff by simp
  show "nb_job gc \<le> eff_chunk ?s" if "At_end \<in> set (workers ?s) \<or> Returned True \<in> set (workers ?s)"
    using that by (simp add: ws)
  show "written ?s = concat (map W [])" by (simp add: ws)
  have "filter_mset (\<lambda>j. j < nb_job gc) (mset [0..int N - 1]) = mset [0..min (int N) (nb_job gc) - 1]"
    using filter_upto_below[of "nb_job gc" "int N"] by (simp flip: mset_filter)
  then show "mset [] + filter_mset (\<lambda>j. j < nb_job gc) (held (workers ?s))
                   = mset [0..min (eff_chunk ?s) (nb_job gc) - 1]"
    unfolding ws held_replicate eff by simp
qed

lemma held_returned:
  assumes "\<forall>x\<in>set xs. x = Returned b"
  shows "held xs = {#}"
proof -
  have "hold w (xs ! w) = {#}" if "w \<in> {..<length xs} - {}" for w
  proof -
    have "xs ! w \<in> set xs" using that by simp
    then have "xs ! w = Returned b" using assms by blast
    then show ?thesis by (simp add: hold_def)
  qed
  then show ?thesis unfolding held_def held_but_def by (simp only: sum.neutral_const sum.cong)
qed

text \<open>When every worker is back, every job has been run once.\<close>

lemma float_inv_final:
  assumes inv: "float_inv W KN gc s" and r: "all_returned True s" and pos: "0 < length (workers s)"
  shows "\<exists>js. written s = concat (map W js) \<and> mset js = mset [0..nb_job gc - 1]"
proof -
  note d = float_invD[OF inv]
  have all: "\<forall>x\<in>set (workers s). x = Returned True" using r by (simp add: all_returned_def)
  have h: "held (workers s) = {#}" by (rule held_returned[OF all])
  have "workers s ! 0 \<in> set (workers s)" using pos by simp
  then have "Returned True \<in> set (workers s)" using all by metis
  then have "nb_job gc \<le> eff_chunk s" using d(5) by simp
  then have "min (eff_chunk s) (nb_job gc) = nb_job gc" by simp
  then show ?thesis using d(6) unfolding h by simp
qed

subsection \<open>The workers of the quantised engine share the work of one\<close>

lemma upto_join:
  fixes a b :: int
  assumes "0 \<le> a" "a \<le> b"
  shows "[0..a - 1] @ [a..b - 1] = [0..b - 1]"
proof (cases "a = b")
  case True
  then show ?thesis by simp
next
  case False
  then show ?thesis using upto_split1[of 0 a "b - 1"] assms by simp
qed

lemma duty_jobs_eq:
  "duty_jobs t i N = [(t + N - 1) div N * i .. min ((t + N - 1) div N * i + (t + N - 1) div N) t - 1]"
  by (simp add: duty_jobs_def Let_def min_def)

text \<open>The duties of the \<open>N\<close> workers are the jobs \<open>0, \<dots>, t - 1\<close>.\<close>

lemma duty_prefix:
  fixes d t :: int
  assumes "0 \<le> d"
  shows "(\<Sum>w<K. mset [d * int w .. min (d * int w + d) t - 1]) = mset [0..min (d * int K) t - 1]"
proof (induction K)
  case 0
  then show ?case by simp
next
  case (Suc K)
  define a where "a = d * int K"
  have a0: "0 \<le> a" using assms by (simp add: a_def)
  have e: "d * int (Suc K) = a + d" by (simp add: a_def algebra_simps)
  have "mset [0..min a t - 1] + mset [a..min (a + d) t - 1] = mset [0..min (a + d) t - 1]"
  proof (cases "a < t")
    case True
    then have m: "min a t = a" by simp
    have "a \<le> min (a + d) t" using True assms by simp
    from upto_join[OF a0 this] show ?thesis unfolding m by (simp flip: mset_append)
  next
    case False
    then have "min a t = t" "min (a + d) t = t" using assms by simp_all
    then show ?thesis using False by simp
  qed
  then show ?case using Suc unfolding e by (simp add: a_def)
qed

lemma duty_jobs_all:
  assumes "0 < N" "0 \<le> t"
  shows "(\<Sum>w<N. mset (duty_jobs t (int w) (int N))) = mset [0..t - 1]"
proof -
  define d where "d = (t + int N - 1) div int N"
  have n1: "1 \<le> int N" using assms by simp
  have d0: "0 \<le> d" unfolding d_def using assms by (simp add: pos_imp_zdiv_nonneg_iff)
  have "t \<le> d * int N" unfolding d_def using ceil_bounds(1)[OF n1, of t] by simp
  then have m: "min (d * int N) t = t" by simp
  show ?thesis
    unfolding duty_jobs_eq d_def[symmetric] duty_prefix[OF d0] m ..
qed

lemma duty_jobs_single: "duty_jobs t 0 1 = [0..t - 1]"
  by (simp add: duty_jobs_eq)

lemma mset_concat_map: "mset (concat (map F xs)) = (\<Sum>x\<in>#mset xs. mset (F x))"
  by (induction xs) simp_all

lemma sum_image_mset_sum:
  fixes g :: "'a \<Rightarrow> 'b multiset"
  shows "(\<Sum>w\<in>A. (\<Sum>x\<in>#M w. g x)) = (\<Sum>x\<in>#(\<Sum>w\<in>A. M w). g x)"
  by (induction A rule: infinite_finite_induct) simp_all

text \<open>A kernel run by \<open>N\<close> workers writes what it writes when run by one.\<close>

lemma shared_jobs:
  assumes "0 < N" "0 \<le> t"
    "\<And>i n. G i n = concat (map F (duty_jobs t i n))"
  shows "(\<Sum>w<N. mset (G (int w) (int N))) = mset (G 0 1)"
proof -
  have "(\<Sum>w<N. mset (G (int w) (int N)))
        = (\<Sum>w<N. (\<Sum>x\<in>#mset (duty_jobs t (int w) (int N)). mset (F x)))"
    by (simp add: assms(3) mset_concat_map)
  also have "\<dots> = (\<Sum>x\<in>#(\<Sum>w<N. mset (duty_jobs t (int w) (int N))). mset (F x))"
    by (rule sum_image_mset_sum)
  also have "\<dots> = mset (G 0 1)"
    unfolding duty_jobs_all[OF assms(1,2)] by (simp add: assms(3) mset_concat_map duty_jobs_single)
  finally show ?thesis .
qed

lemma gemm_udTmp_worker [simp]:
  "gemm_udTmp (Q\<lparr>q_ith := i, q_nth := n\<rparr>) = gemm_udTmp Q"
  by (intro ext) (simp add: gemm_udTmp_def)

lemma Q0_gemm_shape:
  "\<exists>F. \<forall>i N. Q0_gemm (Q\<lparr>q_ith := i, q_nth := N\<rparr>) rm rn m0 m n0 n
           = concat (map F (duty_jobs ((n - n0) div rn * ((m - m0) div rm)) i N))"
  unfolding Q0_gemm_def Let_def
  apply (rule exI)
  apply (intro allI)
  apply simp
  done

lemma Q0_gemm4xN_shape:
  "\<exists>F. \<forall>i N. Q0_gemm4xN (Q\<lparr>q_ith := i, q_nth := N\<rparr>) rn m0 m n0 n
           = concat (map F (duty_jobs ((n - n0) div rn * ((m - m0) div 4)) i N))"
  unfolding Q0_gemm4xN_def Let_def
  apply (rule exI)
  apply (intro allI)
  apply simp
  done

lemma Q0_gemmMx4_shape:
  "\<exists>F. \<forall>i N. Q0_gemmMx4 (Q\<lparr>q_ith := i, q_nth := N\<rparr>) rm m0 m n0 n
           = concat (map F (duty_jobs ((n - n0) div 4 * ((m - m0) div rm)) i N))"
  unfolding Q0_gemmMx4_def Let_def
  apply (rule exI)
  apply (intro allI)
  apply simp
  done

lemma tiles_nonneg:
  fixes a b rm rn :: int
  assumes "0 \<le> a" "0 \<le> b" "0 < rm" "0 < rn"
  shows "0 \<le> b div rn * (a div rm)"
  using assms by (simp add: pos_imp_zdiv_nonneg_iff)

lemma mnpack_call_shared:
  assumes "0 < N" "m0 \<le> m" "n0 \<le> n" "1 \<le> mc" "1 \<le> nc"
  shows "(\<Sum>w<N. mset (mnpack_call (Q\<lparr>q_ith := int w, q_nth := int N\<rparr>) kern mc nc m0 m n0 n))
         = mset (mnpack_call (Q\<lparr>q_ith := 0, q_nth := 1\<rparr>) kern mc nc m0 m n0 n)"
proof (cases kern)
  case Gemm
  obtain F where F: "\<And>i N. Q0_gemm (Q\<lparr>q_ith := i, q_nth := N\<rparr>) mc nc m0 m n0 n
           = concat (map F (duty_jobs ((n - n0) div nc * ((m - m0) div mc)) i N))"
    using Q0_gemm_shape[of Q mc nc m0 m n0 n] by blast
  have t: "0 \<le> (n - n0) div nc * ((m - m0) div mc)"
    using assms by (intro tiles_nonneg) auto
  show ?thesis
    unfolding Gemm mnpack_call_def tile_kernel.case
    by (rule shared_jobs[OF assms(1) t F])
next
  case Gemm4xN
  obtain F where F: "\<And>i N. Q0_gemm4xN (Q\<lparr>q_ith := i, q_nth := N\<rparr>) nc m0 m n0 n
           = concat (map F (duty_jobs ((n - n0) div nc * ((m - m0) div 4)) i N))"
    using Q0_gemm4xN_shape[of Q nc m0 m n0 n] by blast
  have t: "0 \<le> (n - n0) div nc * ((m - m0) div 4)"
    using assms by (intro tiles_nonneg) auto
  show ?thesis
    unfolding Gemm4xN mnpack_call_def tile_kernel.case
    by (rule shared_jobs[OF assms(1) t F])
next
  case GemmMx4
  obtain F where F: "\<And>i N. Q0_gemmMx4 (Q\<lparr>q_ith := i, q_nth := N\<rparr>) mc m0 m n0 n
           = concat (map F (duty_jobs ((n - n0) div 4 * ((m - m0) div mc)) i N))"
    using Q0_gemmMx4_shape[of Q mc m0 m n0 n] by blast
  have t: "0 \<le> (n - n0) div 4 * ((m - m0) div mc)"
    using assms by (intro tiles_nonneg) auto
  show ?thesis
    unfolding GemmMx4 mnpack_call_def tile_kernel.case
    by (rule shared_jobs[OF assms(1) t F])
qed

text \<open>A call of \<^verbatim>\<open>mnpack\<close> that returns, unfolded once.\<close>

lemma Q0_mnpack_unfold:
  assumes "m0 \<le> m" "n0 \<le> n"
  shows "the (Q0_mnpack Q m0 m n0 n)
         = (case mnpack_switch (q_cf Q) (push_bit 4 (min (m - m0) 4) OR min (n - n0) 4) of
              None \<Rightarrow> []
            | Some (mc, nc, kern) \<Rightarrow>
                mnpack_call Q kern mc nc m0 m n0 n
                @ the (Q0_mnpack Q (m0 + (m - m0) div mc * mc) m n0 (n0 + (n - n0) div nc * nc))
                @ the (Q0_mnpack Q m0 m (n0 + (n - n0) div nc * nc) n))"
proof -
  let ?a = "min (m - m0) 4" and ?b = "min (n - n0) 4"
  have ab: "0 \<le> ?a" "?a \<le> 4" "0 \<le> ?b" "?b \<le> 4" using assms by simp_all
  note sw = mnpack_switch_cases[OF ab, of "q_cf Q"]
  show ?thesis
  proof (cases "mnpack_switch (q_cf Q) (push_bit 4 ?a OR ?b)")
    case None
    then show ?thesis by (subst Q0_mnpack.simps) simp
  next
    case (Some t)
    obtain mc nc kern where t: "t = (mc, nc, kern)" by (cases t) auto
    from sw Some t have c: "1 \<le> mc" "mc \<le> m - m0" "1 \<le> nc" "nc \<le> n - n0" by auto
    let ?mp = "m0 + (m - m0) div mc * mc" and ?np = "n0 + (n - n0) div nc * nc"
    have mp: "m0 < ?mp" "?mp \<le> m" using tile_floor[OF c(1,2)] by auto
    have np: "n0 < ?np" "?np \<le> n" using tile_floor[OF c(3,4)] by auto
    obtain ws1 where ws1: "Q0_mnpack Q ?mp m n0 ?np = Some ws1"
      using Q0_mnpack_terminates[of ?mp m n0 ?np Q] mp np by auto
    obtain ws2 where ws2: "Q0_mnpack Q m0 m ?np n = Some ws2"
      using Q0_mnpack_terminates[of m0 m ?np n Q] assms np by auto
    show ?thesis
      using Some t ws1 ws2 by (subst Q0_mnpack.simps) (simp add: Let_def)
  qed
qed

text \<open>The workers of the quantised engine together write what one worker would.\<close>

lemma Q0_mnpack_shared:
  assumes "0 < N" "m0 \<le> m" "n0 \<le> n"
  shows "(\<Sum>w<N. mset (the (Q0_mnpack (Q\<lparr>q_ith := int w, q_nth := int N\<rparr>) m0 m n0 n)))
         = mset (the (Q0_mnpack (Q\<lparr>q_ith := 0, q_nth := 1\<rparr>) m0 m n0 n))"
  using assms(2,3)
proof (induction "nat ((m - m0) + (n - n0))" arbitrary: m0 n0 m n rule: less_induct)
  case less
  let ?a = "min (m - m0) 4" and ?b = "min (n - n0) 4"
  have ab: "0 \<le> ?a" "?a \<le> 4" "0 \<le> ?b" "?b \<le> 4" using less.prems by simp_all
  note sw = mnpack_switch_cases[OF ab, of "q_cf Q"]
  note un = Q0_mnpack_unfold[OF less.prems]
  show ?case
  proof (cases "mnpack_switch (q_cf Q) (push_bit 4 ?a OR ?b)")
    case None
    then show ?thesis by (simp add: un)
  next
    case (Some t)
    obtain mc nc kern where t: "t = (mc, nc, kern)" by (cases t) auto
    from sw Some t have c: "1 \<le> mc" "mc \<le> m - m0" "1 \<le> nc" "nc \<le> n - n0" by auto
    let ?mp = "m0 + (m - m0) div mc * mc" and ?np = "n0 + (n - n0) div nc * nc"
    have mp: "m0 < ?mp" "?mp \<le> m" using tile_floor[OF c(1,2)] by auto
    have np: "n0 < ?np" "?np \<le> n" using tile_floor[OF c(3,4)] by auto
    have 1: "(\<Sum>w<N. mset (the (Q0_mnpack (Q\<lparr>q_ith := int w, q_nth := int N\<rparr>) ?mp m n0 ?np)))
         = mset (the (Q0_mnpack (Q\<lparr>q_ith := 0, q_nth := 1\<rparr>) ?mp m n0 ?np))"
      using mp np less.prems by (intro less.hyps) auto
    have 2: "(\<Sum>w<N. mset (the (Q0_mnpack (Q\<lparr>q_ith := int w, q_nth := int N\<rparr>) m0 m ?np n)))
         = mset (the (Q0_mnpack (Q\<lparr>q_ith := 0, q_nth := 1\<rparr>) m0 m ?np n))"
      using mp np less.prems by (intro less.hyps) auto
    note 0 = mnpack_call_shared[OF assms(1) less.prems c(1,3), of Q kern]
    show ?thesis
      using Some t 0 1 2 by (simp add: un sum.distrib)
  qed
qed

lemma fst_store_tile: "map fst (store_tile fo rm rn ii jj Cv) = tile_cells rm rn ii jj"
  by (simp add: store_tile_def tile_cells_def map_concat comp_def)

lemma fst_concat_tiles:
  "map fst (concat (map (\<lambda>job. store_tile fo rm rn (ii job) (jj job) (Cv job)) js))
   = concat (map (\<lambda>job. tile_cells rm rn (ii job) (jj job)) js)"
  by (simp add: map_concat comp_def fst_store_tile)

lemma Q0_gemm_cells:
  assumes "q_ith Q = 0" "q_nth Q = 1"
  shows "map fst (Q0_gemm Q rm rn m0 m n0 n)
         = concat (map (\<lambda>job. tile_cells rm rn (m0 + job div ((n - n0) div rn) * rm)
                                               (n0 + job mod ((n - n0) div rn) * rn))
                       [0..(n - n0) div rn * ((m - m0) div rm) - 1])"
  unfolding Q0_gemm_def Let_def assms duty_jobs_single by (rule fst_concat_tiles)

lemma Q0_gemm4xN_cells:
  assumes "q_ith Q = 0" "q_nth Q = 1"
  shows "map fst (Q0_gemm4xN Q rn m0 m n0 n)
         = concat (map (\<lambda>job. tile_cells 4 rn (m0 + job div ((n - n0) div rn) * 4)
                                              (n0 + job mod ((n - n0) div rn) * rn))
                       [0..(n - n0) div rn * ((m - m0) div 4) - 1])"
  unfolding Q0_gemm4xN_def Let_def assms duty_jobs_single by (rule fst_concat_tiles)

lemma Q0_gemmMx4_cells:
  assumes "q_ith Q = 0" "q_nth Q = 1"
  shows "map fst (Q0_gemmMx4 Q rm m0 m n0 n)
         = concat (map (\<lambda>job. tile_cells rm 4 (m0 + job div ((n - n0) div 4) * rm)
                                              (n0 + job mod ((n - n0) div 4) * 4))
                       [0..(n - n0) div 4 * ((m - m0) div rm) - 1])"
  unfolding Q0_gemmMx4_def Let_def assms duty_jobs_single by (rule fst_concat_tiles)

lemma mnpack_switch_kern:
  assumes "mnpack_switch cf key = Some (mc, nc, kern)"
  shows "kern = Gemm4xN \<longrightarrow> mc = 4" "kern = GemmMx4 \<longrightarrow> nc = 4"
  using assms by (auto simp: mnpack_switch_def Let_def split: if_splits)

lemma mnpack_call_cells:
  assumes "q_ith Q = 0" "q_nth Q = 1" "kern = Gemm4xN \<longrightarrow> mc = 4" "kern = GemmMx4 \<longrightarrow> nc = 4"
  shows "map fst (mnpack_call Q kern mc nc m0 m n0 n)
         = concat (map (\<lambda>job. tile_cells mc nc (m0 + job div ((n - n0) div nc) * mc)
                                              (n0 + job mod ((n - n0) div nc) * nc))
                       [0..(n - n0) div nc * ((m - m0) div mc) - 1])"
  using assms
  by (cases kern)
     (simp_all add: mnpack_call_def Q0_gemm_cells Q0_gemm4xN_cells Q0_gemmMx4_cells)

lemma band_disjoint_from:
  fixes h a b z :: int
  assumes "0 < h" "a \<noteq> b"
  shows "{z + a * h..<z + a * h + h} \<inter> {z + b * h..<z + b * h + h} = {}"
proof -
  have "{a * h..<a * h + h} \<inter> {b * h..<b * h + h} = {}" by (rule band_disjoint[OF assms])
  then show ?thesis by auto
qed

text \<open>The tiles of a grid of \<open>yt\<close> by \<open>xt\<close> tiles, numbered row by row.\<close>

lemma grid_tiles:
  fixes rm rn xt yt m0 n0 :: int
  assumes "1 \<le> rm" "1 \<le> rn" "0 \<le> xt" "0 \<le> yt"
  defines "L \<equiv> concat (map (\<lambda>job. tile_cells rm rn (m0 + job div xt * rm) (n0 + job mod xt * rn))
                            [0..xt * yt - 1])"
  shows "distinct L" "set L = {m0..<m0 + yt * rm} \<times> {n0..<n0 + xt * rn}"
proof -
  have rm: "0 < rm" and rn: "0 < rn" using assms by simp_all
  let ?f = "\<lambda>job. tile_cells rm rn (m0 + job div xt * rm) (n0 + job mod xt * rn)"
  show "distinct L"
    unfolding L_def
  proof (rule distinct_concat_map)
    show "distinct [0..xt * yt - 1]" by simp
    show "\<forall>x\<in>set [0..xt * yt - 1]. distinct (?f x)" by (simp add: distinct_tile_cells)
    show "\<forall>x\<in>set [0..xt * yt - 1]. \<forall>y\<in>set [0..xt * yt - 1]. x \<noteq> y \<longrightarrow> set (?f x) \<inter> set (?f y) = {}"
    proof (intro ballI impI)
      fix x y :: int assume ne: "x \<noteq> y"
      have "x div xt \<noteq> y div xt \<or> x mod xt \<noteq> y mod xt"
      proof (rule ccontr)
        assume "\<not> (x div xt \<noteq> y div xt \<or> x mod xt \<noteq> y mod xt)"
        then have "x div xt * xt + x mod xt = y div xt * xt + y mod xt" by simp
        then show False using ne by (simp only: div_mult_mod_eq)
      qed
      then show "set (?f x) \<inter> set (?f y) = {}"
      proof
        assume "x div xt \<noteq> y div xt"
        from band_disjoint_from[OF rm this, of m0] show ?thesis
          unfolding set_tile_cells by auto
      next
        assume "x mod xt \<noteq> y mod xt"
        from band_disjoint_from[OF rn this, of n0] show ?thesis
          unfolding set_tile_cells by auto
      qed
    qed
  qed
  have "set L = (\<Union>job\<in>{0..xt * yt - 1}. {m0 + job div xt * rm..<m0 + job div xt * rm + rm}
                                          \<times> {n0 + job mod xt * rn..<n0 + job mod xt * rn + rn})"
    unfolding L_def by (simp add: set_tile_cells)
  also have "\<dots> = {m0..<m0 + yt * rm} \<times> {n0..<n0 + xt * rn}"
  proof (intro equalityI subsetI)
    fix c assume "c \<in> (\<Union>job\<in>{0..xt * yt - 1}. {m0 + job div xt * rm..<m0 + job div xt * rm + rm}
                                          \<times> {n0 + job mod xt * rn..<n0 + job mod xt * rn + rn})"
    then obtain job where job: "0 \<le> job" "job < xt * yt"
      and c: "c \<in> {m0 + job div xt * rm..<m0 + job div xt * rm + rm}
                \<times> {n0 + job mod xt * rn..<n0 + job mod xt * rn + rn}"
      by auto
    have x0: "0 < xt" using job assms(3,4) by (cases "xt = 0") auto
    have r: "0 \<le> job div xt" "job div xt < yt"
      using job x0 by (simp_all add: pos_imp_zdiv_nonneg_iff int_div_less mult.commute)
    have t: "0 \<le> job mod xt" "job mod xt < xt" using x0 by simp_all
    note br = band_bounds[OF rm r]
    note bt = band_bounds[OF rn t]
    show "c \<in> {m0..<m0 + yt * rm} \<times> {n0..<n0 + xt * rn}" using c br bt by auto
  next
    fix c assume "c \<in> {m0..<m0 + yt * rm} \<times> {n0..<n0 + xt * rn}"
    then obtain i j where c: "c = (i, j)" "m0 \<le> i" "i < m0 + yt * rm" "n0 \<le> j" "j < n0 + xt * rn"
      by auto
    define r where "r = (i - m0) div rm"
    define t where "t = (j - n0) div rn"
    have r0: "0 \<le> r" using c(2) rm by (simp add: r_def pos_imp_zdiv_nonneg_iff)
    have t0: "0 \<le> t" using c(4) rn by (simp add: t_def pos_imp_zdiv_nonneg_iff)
    have rN: "r < yt" unfolding r_def using c(3) by (intro int_div_less[OF rm]) simp
    have tN: "t < xt" unfolding t_def using c(5) by (intro int_div_less[OF rn]) simp
    have ir: "i - m0 = r * rm + (i - m0) mod rm" by (simp add: r_def)
    have jt: "j - n0 = t * rn + (j - n0) mod rn" by (simp add: t_def)
    have "0 \<le> (i - m0) mod rm" "(i - m0) mod rm < rm" using rm by simp_all
    then have row: "m0 + r * rm \<le> i" "i < m0 + r * rm + rm" using ir by linarith+
    have "0 \<le> (j - n0) mod rn" "(j - n0) mod rn < rn" using rn by simp_all
    then have col: "n0 + t * rn \<le> j" "j < n0 + t * rn + rn" using jt by linarith+
    define job where "job = r * xt + t"
    have dm: "job div xt = r" "job mod xt = t" using t0 tN by (simp_all add: job_def)
    have j0: "0 \<le> job" using r0 t0 tN by (simp add: job_def)
    have "(r + 1) * xt \<le> yt * xt" using rN t0 tN by (intro mult_right_mono) auto
    then have jN: "job < xt * yt" using tN by (simp add: job_def algebra_simps)
    have "c \<in> {m0 + job div xt * rm..<m0 + job div xt * rm + rm}
                \<times> {n0 + job mod xt * rn..<n0 + job mod xt * rn + rn}"
      unfolding dm using row col c(1) by simp
    then show "c \<in> (\<Union>job\<in>{0..xt * yt - 1}. {m0 + job div xt * rm..<m0 + job div xt * rm + rm}
                                          \<times> {n0 + job mod xt * rn..<n0 + job mod xt * rn + rn})"
      using j0 jN by auto
  qed
  finally show "set L = {m0..<m0 + yt * rm} \<times> {n0..<n0 + xt * rn}" .
qed

text \<open>One worker alone covers the region of \<^verbatim>\<open>mnpack\<close>, every cell once.\<close>

lemma Q0_mnpack_cells:
  assumes "q_ith Q = 0" "q_nth Q = 1" "m0 \<le> m" "n0 \<le> n"
  shows "distinct (map fst (the (Q0_mnpack Q m0 m n0 n)))
       \<and> set (map fst (the (Q0_mnpack Q m0 m n0 n))) = {m0..<m} \<times> {n0..<n}"
  using assms(3,4)
proof (induction "nat ((m - m0) + (n - n0))" arbitrary: m0 n0 m n rule: less_induct)
  case less
  let ?a = "min (m - m0) 4" and ?b = "min (n - n0) 4"
  have ab: "0 \<le> ?a" "?a \<le> 4" "0 \<le> ?b" "?b \<le> 4" using less.prems by simp_all
  note sw = mnpack_switch_cases[OF ab, of "q_cf Q"]
  note un = Q0_mnpack_unfold[OF less.prems]
  show ?case
  proof (cases "mnpack_switch (q_cf Q) (push_bit 4 ?a OR ?b)")
    case None
    then have "m - m0 = 0 \<or> n - n0 = 0" using sw by (auto simp: min_def split: if_splits)
    then have "{m0..<m} \<times> {n0..<n} = {}" by auto
    moreover have "the (Q0_mnpack Q m0 m n0 n) = []" using None by (simp add: un)
    ultimately show ?thesis by (simp only: list.map distinct.simps list.set simp_thms)
  next
    case (Some t)
    obtain mc nc kern where t: "t = (mc, nc, kern)" by (cases t) auto
    from sw Some t have c: "1 \<le> mc" "mc \<le> m - m0" "1 \<le> nc" "nc \<le> n - n0" by auto
    let ?mp = "m0 + (m - m0) div mc * mc" and ?np = "n0 + (n - n0) div nc * nc"
    have mp: "m0 < ?mp" "?mp \<le> m" using tile_floor[OF c(1,2)] by auto
    have np: "n0 < ?np" "?np \<le> n" using tile_floor[OF c(3,4)] by auto
    let ?w0 = "mnpack_call Q kern mc nc m0 m n0 n"
    let ?w1 = "the (Q0_mnpack Q ?mp m n0 ?np)"
    let ?w2 = "the (Q0_mnpack Q m0 m ?np n)"
    have "distinct (map fst ?w1) \<and> set (map fst ?w1) = {?mp..<m} \<times> {n0..<?np}"
      using mp np less.prems by (intro less.hyps) auto
    then have 1: "distinct (map fst ?w1)" "set (map fst ?w1) = {?mp..<m} \<times> {n0..<?np}"
      by blast+
    have "distinct (map fst ?w2) \<and> set (map fst ?w2) = {m0..<m} \<times> {?np..<n}"
      using mp np less.prems by (intro less.hyps) auto
    then have 2: "distinct (map fst ?w2)" "set (map fst ?w2) = {m0..<m} \<times> {?np..<n}"
      by blast+
    have xt: "0 \<le> (n - n0) div nc" "0 \<le> (m - m0) div mc"
      using c less.prems by (simp_all add: pos_imp_zdiv_nonneg_iff)
    note k = mnpack_switch_kern[OF Some[unfolded t]]
    note cells = mnpack_call_cells[OF assms(1,2) k, of m0 m n0 n]
    note g = grid_tiles[OF c(1,3) xt, of m0 n0, folded cells]
    have 0: "distinct (map fst ?w0)" "set (map fst ?w0) = {m0..<?mp} \<times> {n0..<?np}"
      using g by simp_all
    have u: "{m0..<?mp} \<times> {n0..<?np} \<union> {?mp..<m} \<times> {n0..<?np} \<union> {m0..<m} \<times> {?np..<n}
             = {m0..<m} \<times> {n0..<n}"
      using mp np by auto
    have e: "the (Q0_mnpack Q m0 m n0 n) = ?w0 @ ?w1 @ ?w2" using Some t by (simp add: un)
    have "distinct (map fst (?w0 @ ?w1 @ ?w2))"
      using 0 1 2 by auto
    moreover have "set (map fst (?w0 @ ?w1 @ ?w2)) = {m0..<m} \<times> {n0..<n}"
      using 0(2) 1(2) 2(2) u by (simp add: Un_assoc)
    ultimately show ?thesis unfolding e by simp
  qed
qed

subsection \<open>Runs of the quantised engine and refused calls\<close>

lemma step_entered_quant:
  assumes "w < length (workers s)" "workers s ! w = Entered"
    "llamafile_sgemm (c_cf c) (int w) (int (length (workers s))) (c_m c) (c_n c) (c_k c)
        (c_Atype c) (c_Btype c) (c_Ctype c) = Inr (Some (Quant_kernel TA TB))"
    "Q0_matmul (Q0_of_call c TA TB (int w) (int (length (workers s)))) (c_m c) (c_n c) = Some ws"
  shows "worker_step c w s = set_worker w (Returned True) (s\<lparr>written := written s @ ws\<rparr>)"
  using assms by (simp add: worker_step_def Let_def)

lemma step_entered_none:
  assumes "w < length (workers s)" "workers s ! w = Entered"
    "llamafile_sgemm (c_cf c) (int w) (int (length (workers s))) (c_m c) (c_n c) (c_k c)
        (c_Atype c) (c_Btype c) (c_Ctype c) = Inr None"
  shows "worker_step c w s = set_worker w (Returned False) s"
  using assms by (simp add: worker_step_def Let_def)

text \<open>A call that the entry point refuses: no worker writes.\<close>

lemma idle_inv_step:
  assumes inv: "idle_inv s"
    and dec: "\<And>ith. llamafile_sgemm (c_cf c) ith (int (length (workers s))) (c_m c) (c_n c) (c_k c)
                  (c_Atype c) (c_Btype c) (c_Ctype c) = Inr None"
  shows "idle_inv (worker_step c w s)"
proof (cases "w < length (workers s)")
  case False
  then show ?thesis using inv by (simp add: step_outside)
next
  case w: True
  have "workers s ! w \<in> set (workers s)" using w by simp
  then consider (E) "workers s ! w = Entered" | (R) "workers s ! w = Returned False"
    using inv unfolding idle_inv_def by blast
  then show ?thesis
  proof cases
    case E
    show ?thesis
      unfolding step_entered_none[OF w E dec]
      using inv by (auto simp: idle_inv_def dest: in_set_update)
  next
    case R
    show ?thesis unfolding step_returned[OF w R] by (rule inv)
  qed
qed

lemma idle_inv_run:
  assumes inv: "idle_inv s"
    and dec: "\<And>ith. llamafile_sgemm (c_cf c) ith (int (length (workers s))) (c_m c) (c_n c) (c_k c)
                  (c_Atype c) (c_Btype c) (c_Ctype c) = Inr None"
  shows "idle_inv (run_pool c sched s)"
  using inv dec
proof (induction sched arbitrary: s)
  case Nil
  then show ?case by (simp add: run_pool_def)
next
  case (Cons w sched)
  have "idle_inv (worker_step c w s)"
    by (rule idle_inv_step[OF Cons.prems(1) Cons.prems(2)])
  moreover have "\<And>ith. llamafile_sgemm (c_cf c) ith (int (length (workers (worker_step c w s))))
                  (c_m c) (c_n c) (c_k c) (c_Atype c) (c_Btype c) (c_Ctype c) = Inr None"
    using Cons.prems(2) by (simp add: worker_step_length)
  ultimately show ?case unfolding run_pool_Cons by (rule Cons.IH)
qed

lemma idle_inv_init: "idle_inv (init_pool N c0)"
  by (simp add: idle_inv_def init_pool_def)

text \<open>The quantised engine: every worker runs its whole matmul in one step.\<close>

lemma quant_inv_step:
  assumes inv: "quant_inv Wq s"
    and dec: "\<And>ith. llamafile_sgemm (c_cf c) ith (int (length (workers s))) (c_m c) (c_n c) (c_k c)
                  (c_Atype c) (c_Btype c) (c_Ctype c) = Inr (Some (Quant_kernel TA TB))"
    and run: "\<And>w. Q0_matmul (Q0_of_call c TA TB (int w) (int (length (workers s)))) (c_m c) (c_n c)
                  = Some (Wq w)"
  shows "quant_inv Wq (worker_step c w s)"
proof (cases "w < length (workers s)")
  case False
  then show ?thesis using inv by (simp add: step_outside)
next
  case w: True
  have "workers s ! w \<in> set (workers s)" using w by simp
  then consider (E) "workers s ! w = Entered" | (R) "workers s ! w = Returned True"
    using inv unfolding quant_inv_def by blast
  then show ?thesis
  proof cases
    case E
    obtain ord where ord: "distinct ord"
        "set ord = {v. v < length (workers s) \<and> workers s ! v = Returned True}"
        "written s = concat (map Wq ord)"
      using inv unfolding quant_inv_def by blast
    let ?s = "set_worker w (Returned True) (s\<lparr>written := written s @ Wq w\<rparr>)"
    have ws: "workers ?s = (workers s)[w := Returned True]" "written ?s = written s @ Wq w"
      by simp_all
    have "w \<notin> set ord" using ord(2) E by simp
    then have d: "distinct (ord @ [w])" using ord(1) by simp
    have s: "set (ord @ [w]) = {v. v < length (workers ?s) \<and> workers ?s ! v = Returned True}"
      unfolding ws using ord(2) w by (auto simp: nth_list_update)
    have wr: "written ?s = concat (map Wq (ord @ [w]))" unfolding ws ord(3) by simp
    have a: "\<forall>x\<in>set (workers ?s). x = Entered \<or> x = Returned True"
      using inv unfolding ws quant_inv_def by (auto dest: in_set_update)
    have "quant_inv Wq ?s" unfolding quant_inv_def using a d s wr by blast
    then show ?thesis unfolding step_entered_quant[OF w E dec run] .
  next
    case R
    show ?thesis unfolding step_returned[OF w R] by (rule inv)
  qed
qed

lemma quant_inv_run:
  assumes inv: "quant_inv Wq s"
    and dec: "\<And>ith. llamafile_sgemm (c_cf c) ith (int (length (workers s))) (c_m c) (c_n c) (c_k c)
                  (c_Atype c) (c_Btype c) (c_Ctype c) = Inr (Some (Quant_kernel TA TB))"
    and run: "\<And>w. Q0_matmul (Q0_of_call c TA TB (int w) (int (length (workers s)))) (c_m c) (c_n c)
                  = Some (Wq w)"
  shows "quant_inv Wq (run_pool c sched s)"
  using inv dec run
proof (induction sched arbitrary: s)
  case Nil
  then show ?case by (simp add: run_pool_def)
next
  case (Cons w sched)
  have "quant_inv Wq (worker_step c w s)"
    by (rule quant_inv_step[OF Cons.prems])
  moreover have "\<And>ith. llamafile_sgemm (c_cf c) ith (int (length (workers (worker_step c w s))))
                  (c_m c) (c_n c) (c_k c) (c_Atype c) (c_Btype c) (c_Ctype c)
                = Inr (Some (Quant_kernel TA TB))"
    using Cons.prems(2) by (simp add: worker_step_length)
  moreover have "\<And>v. Q0_matmul (Q0_of_call c TA TB (int v)
                     (int (length (workers (worker_step c w s))))) (c_m c) (c_n c) = Some (Wq v)"
    using Cons.prems(3) by (simp add: worker_step_length)
  ultimately show ?case unfolding run_pool_Cons by (rule Cons.IH)
qed

lemma quant_inv_init: "quant_inv Wq (init_pool N c0)"
proof -
  let ?s = "init_pool N c0 :: 'a pool"
  have e: "{w. w < length (workers ?s) \<and> workers ?s ! w = Returned True} = {}"
    by (simp add: init_pool_def)
  have "distinct ([] :: nat list) \<and> set ([] :: nat list)
          = {w. w < length (workers ?s) \<and> workers ?s ! w = Returned True}
        \<and> written ?s = concat (map Wq [])"
    unfolding e by (simp add: init_pool_def)
  then have "\<exists>ord. distinct ord
             \<and> set ord = {w. w < length (workers ?s) \<and> workers ?s ! w = Returned True}
             \<and> written ?s = concat (map Wq ord)"
    by (rule exI)
  moreover have "\<forall>x\<in>set (workers ?s). x = Entered \<or> x = Returned True"
    by (simp add: init_pool_def)
  ultimately show ?thesis unfolding quant_inv_def by (rule conjI[rotated])
qed

lemma quant_inv_final:
  assumes inv: "quant_inv Wq s" and r: "all_returned True s"
  shows "mset (written s) = (\<Sum>w<length (workers s). mset (Wq w))"
proof -
  obtain ord where ord: "distinct ord"
      "set ord = {v. v < length (workers s) \<and> workers s ! v = Returned True}"
      "written s = concat (map Wq ord)"
    using inv unfolding quant_inv_def by blast
  have "set ord = {..<length (workers s)}"
    using r unfolding ord(2) all_returned_def by auto
  then have m: "mset ord = mset_set {..<length (workers s)}"
    using ord(1) by (metis mset_set_set)
  have "mset (written s) = (\<Sum>w\<in>#mset ord. mset (Wq w))"
    unfolding ord(3) by (rule mset_concat_map)
  also have "\<dots> = (\<Sum>w<length (workers s). mset (Wq w))"
    unfolding m by (simp add: sum_unfold_sum_mset)
  finally show ?thesis .
qed

lemma job_writes_ok:
  fixes ops :: "('v, 'd, 'f) vec_ops"
  assumes plan: "float_plan gc m n" and kn: "0 < KN" "0 \<le> k" "k mod KN = 0"
    and job: "0 \<le> job" "job < nb_job gc"
  shows "gemm_job ops KN k lda ldb gc job = Inr (job_writes ops KN k lda ldb gc job)"
    "job_writes ops KN k lda ldb gc job
       = valued ops KN k lda ldb (map fst (job_writes ops KN k lda ldb gc job))"
    "distinct (map fst (job_writes ops KN k lda ldb gc job))"
    "set (map fst (job_writes ops KN k lda ldb gc job)) = job_rect gc job"
proof -
  have y: "ytiles gc \<noteq> 0" using job_split(1)[OF plan job] by simp
  have p: "0 < RM gc" "0 \<le> BM gc" "1 \<le> RN gc" "1 \<le> SIZE_BN gc"
    using plan by (simp_all add: float_plan_def)
  from gemm_job_writes[OF kn y p, of ops lda ldb job]
  obtain cs where cs: "gemm_job ops KN k lda ldb gc job = Inr (valued ops KN k lda ldb cs)"
      "distinct cs" "set cs = job_rect gc job"
    by blast
  have w: "job_writes ops KN k lda ldb gc job = valued ops KN k lda ldb cs"
    by (simp add: job_writes_def cs(1))
  show "gemm_job ops KN k lda ldb gc job = Inr (job_writes ops KN k lda ldb gc job)"
    unfolding w by (rule cs(1))
  show "job_writes ops KN k lda ldb gc job
       = valued ops KN k lda ldb (map fst (job_writes ops KN k lda ldb gc job))"
    unfolding w by simp
  show "distinct (map fst (job_writes ops KN k lda ldb gc job))" unfolding w using cs(2) by simp
  show "set (map fst (job_writes ops KN k lda ldb gc job)) = job_rect gc job"
    unfolding w using cs(3) by simp
qed

text \<open>The floating-point engine: what a complete run has written.\<close>

lemma float_pool:
  fixes c :: "('v, 'd, 'f) call"
  assumes N: "0 < N"
    and dec: "\<And>ith. llamafile_sgemm (c_cf c) ith (int N) (c_m c) (c_n c) (c_k c)
                  (c_Atype c) (c_Btype c) (c_Ctype c) = Inr (Some (Float_kernel KN gc))"
    and plan: "float_plan gc (c_m c) (c_n c)" and kn: "0 < KN" "0 \<le> c_k c" "c_k c mod KN = 0"
    and r: "all_returned True (run_pool c sched (init_pool N c0))"
  shows "\<exists>cells. written (run_pool c sched (init_pool N c0))
                   = valued (c_vops c) KN (c_k c) (c_lda c) (c_ldb c) cells
               \<and> distinct cells \<and> set cells = {0..<c_m c} \<times> {0..<c_n c}"
proof -
  define W where "W = job_writes (c_vops c) KN (c_k c) (c_lda c) (c_ldb c) gc"
  let ?ini = "init_pool N c0 :: 'f pool"
  let ?fin = "run_pool c sched ?ini"
  have len0: "length (workers ?ini) = N" by (simp add: init_pool_def)
  have len: "length (workers ?fin) = N" by (simp add: run_pool_length len0)
  have inv: "float_inv W KN gc ?fin"
  proof (rule float_inv_run[OF float_inv_init[OF N]])
    show "\<And>ith. llamafile_sgemm (c_cf c) ith (int (length (workers ?ini))) (c_m c) (c_n c) (c_k c)
                  (c_Atype c) (c_Btype c) (c_Ctype c) = Inr (Some (Float_kernel KN gc))"
      unfolding len0 by (rule dec)
    show "\<And>job. 0 \<le> job \<Longrightarrow> job < nb_job gc \<Longrightarrow>
            gemm_job (c_vops c) KN (c_k c) (c_lda c) (c_ldb c) gc job = Inr (W job)"
      unfolding W_def by (rule job_writes_ok(1)[OF plan kn])
  qed
  have pos: "0 < length (workers ?fin)" using len N by simp
  from float_inv_final[OF inv r pos] obtain js where
    js: "written ?fin = concat (map W js)" "mset js = mset [0..nb_job gc - 1]"
    by blast
  have sj: "set js = {0..nb_job gc - 1}" using mset_eq_setD[OF js(2)] by simp
  define cells where "cells = concat (map (\<lambda>job. map fst (W job)) js)"
  have each: "\<forall>job\<in>set js. distinct (map fst (W job)) \<and> set (map fst (W job)) = job_rect gc job"
  proof (intro ballI conjI)
    fix job assume "job \<in> set js"
    then have j: "0 \<le> job" "job < nb_job gc" using sj by auto
    show "distinct (map fst (W job))" unfolding W_def by (rule job_writes_ok(3)[OF plan kn j])
    show "set (map fst (W job)) = job_rect gc job"
      unfolding W_def by (rule job_writes_ok(4)[OF plan kn j])
  qed
  note part = float_jobs_partition[OF plan js(2) each, folded cells_def]
  have "concat (map W js) = concat (map (\<lambda>job. valued (c_vops c) KN (c_k c) (c_lda c) (c_ldb c)
                                                 (map fst (W job))) js)"
  proof -
    have "map W js = map (\<lambda>job. valued (c_vops c) KN (c_k c) (c_lda c) (c_ldb c) (map fst (W job))) js"
    proof (rule map_cong[OF refl])
      fix job assume "job \<in> set js"
      then have "0 \<le> job" "job < nb_job gc" using sj by auto
      from job_writes_ok(2)[OF plan kn this]
      show "W job = valued (c_vops c) KN (c_k c) (c_lda c) (c_ldb c) (map fst (W job))"
        unfolding W_def .
    qed
    then show ?thesis by (rule arg_cong[where f = concat])
  qed
  also have "\<dots> = valued (c_vops c) KN (c_k c) (c_lda c) (c_ldb c) cells"
    unfolding cells_def by (rule valued_concat)
  finally have "written ?fin = valued (c_vops c) KN (c_k c) (c_lda c) (c_ldb c) cells"
    unfolding js(1) .
  then show ?thesis using part by blast
qed

text \<open>The quantised engine: a complete run has written what a single worker writes.\<close>

lemma Q0_of_call_worker:
  "Q0_of_call c TA TB i n = (Q0_of_call c TA TB 0 1)\<lparr>q_ith := i, q_nth := n\<rparr>"
  by (simp add: Q0_of_call_def)

lemma quant_pool:
  fixes c :: "('v, 'd, 'f) call"
  assumes N: "0 < N"
    and dec: "\<And>ith. llamafile_sgemm (c_cf c) ith (int N) (c_m c) (c_n c) (c_k c)
                  (c_Atype c) (c_Btype c) (c_Ctype c) = Inr (Some (Quant_kernel TA TB))"
    and mn: "0 \<le> c_m c" "0 \<le> c_n c"
    and r: "all_returned True (run_pool c sched (init_pool N c0))"
  shows "mset (written (run_pool c sched (init_pool N c0)))
         = mset (the (Q0_matmul (Q0_of_call c TA TB 0 1) (c_m c) (c_n c)))"
proof -
  define Wq where "Wq = (\<lambda>w. the (Q0_matmul (Q0_of_call c TA TB (int w) (int N)) (c_m c) (c_n c)))"
  let ?ini = "init_pool N c0 :: 'f pool"
  let ?fin = "run_pool c sched ?ini"
  have len0: "length (workers ?ini) = N" by (simp add: init_pool_def)
  have len: "length (workers ?fin) = N" by (simp add: run_pool_length len0)
  have inv: "quant_inv Wq ?fin"
  proof (rule quant_inv_run[OF quant_inv_init])
    show "\<And>ith. llamafile_sgemm (c_cf c) ith (int (length (workers ?ini))) (c_m c) (c_n c) (c_k c)
                  (c_Atype c) (c_Btype c) (c_Ctype c) = Inr (Some (Quant_kernel TA TB))"
      unfolding len0 by (rule dec)
    show "\<And>w. Q0_matmul (Q0_of_call c TA TB (int w) (int (length (workers ?ini)))) (c_m c) (c_n c)
                  = Some (Wq w)"
      unfolding len0 Wq_def Q0_matmul_def
      using Q0_mnpack_terminates[OF mn] by (metis option.sel)
  qed
  let ?Q = "Q0_of_call c TA TB 0 1"
  have "mset (written ?fin) = (\<Sum>w<N. mset (Wq w))"
    using quant_inv_final[OF inv r] unfolding len .
  also have "\<dots> = (\<Sum>w<N. mset (the (Q0_mnpack (?Q\<lparr>q_ith := int w, q_nth := int N\<rparr>)
                                      0 (c_m c) 0 (c_n c))))"
    unfolding Wq_def Q0_matmul_def by (simp only: Q0_of_call_worker[symmetric])
  also have "\<dots> = mset (the (Q0_mnpack (?Q\<lparr>q_ith := 0, q_nth := 1\<rparr>) 0 (c_m c) 0 (c_n c)))"
    by (rule Q0_mnpack_shared[OF N mn])
  also have "?Q\<lparr>q_ith := 0, q_nth := 1\<rparr> = ?Q" by (simp add: Q0_of_call_def)
  finally show ?thesis unfolding Q0_matmul_def .
qed

lemma quant_single:
  assumes "0 \<le> m" "0 \<le> n"
  shows "distinct (map fst (the (Q0_matmul (Q0_of_call c TA TB 0 1) m n)))"
    "set (map fst (the (Q0_matmul (Q0_of_call c TA TB 0 1) m n))) = {0..<m} \<times> {0..<n}"
proof -
  have q: "q_ith (Q0_of_call c TA TB 0 1) = 0" "q_nth (Q0_of_call c TA TB 0 1) = 1"
    by (simp_all add: Q0_of_call_def)
  from Q0_mnpack_cells[OF q assms]
  show "distinct (map fst (the (Q0_matmul (Q0_of_call c TA TB 0 1) m n)))"
    "set (map fst (the (Q0_matmul (Q0_of_call c TA TB 0 1) m n))) = {0..<m} \<times> {0..<n}"
    unfolding Q0_matmul_def by blast+
qed

text \<open>A call that the entry point refuses leaves no worker with \<^verbatim>\<open>true\<close>.\<close>

lemma none_pool:
  fixes c :: "('v, 'd, 'f) call"
  assumes dec: "\<And>ith. llamafile_sgemm (c_cf c) ith (int N) (c_m c) (c_n c) (c_k c)
                  (c_Atype c) (c_Btype c) (c_Ctype c) = Inr None"
  shows "idle_inv (run_pool c sched (init_pool N c0))"
proof (rule idle_inv_run[OF idle_inv_init])
  have len0: "length (workers (init_pool N c0 :: 'f pool)) = N" by (simp add: init_pool_def)
  show "\<And>ith. llamafile_sgemm (c_cf c) ith (int (length (workers (init_pool N c0 :: 'f pool))))
           (c_m c) (c_n c) (c_k c) (c_Atype c) (c_Btype c) (c_Ctype c) = Inr None"
    unfolding len0 by (rule dec)
qed

lemma idle_not_returned:
  assumes "idle_inv s" "all_returned True s" "0 < length (workers s)"
  shows False
proof -
  have "workers s ! 0 \<in> set (workers s)" using assms(3) by simp
  then show False using assms(1,2) unfolding idle_inv_def all_returned_def by auto
qed

subsection \<open>Partition coverage and refused calls\<close>

lemma pool_cells:
  fixes c :: "('v, 'd, 'f) call"
  assumes "0 \<le> c_m c" "0 \<le> c_n c" "0 \<le> c_k c" "0 < N"
    and "all_returned True (run_pool c sched (init_pool N c0))"
  shows "distinct (map fst (written (run_pool c sched (init_pool N c0))))
       \<and> set (map fst (written (run_pool c sched (init_pool N c0)))) = {0..<c_m c} \<times> {0..<c_n c}"
proof -
  let ?F = "\<lambda>ith. llamafile_sgemm (c_cf c) ith (int N) (c_m c) (c_n c) (c_k c)
                  (c_Atype c) (c_Btype c) (c_Ctype c)"
  let ?fin = "run_pool c sched (init_pool N c0)"
  have len: "length (workers ?fin) = N" by (simp add: run_pool_length init_pool_def)
  from sgemm_decided[OF assms(1), of "c_n c" "c_k c" "c_cf c" "int N" "c_Atype c" "c_Btype c" "c_Ctype c"]
  consider (none) "\<forall>ith. ?F ith = Inr None"
    | (quant) TA TB where "\<forall>ith. ?F ith = Inr (Some (Quant_kernel TA TB))"
    | (float) KN gc where "0 < KN" "c_k c mod KN = 0" "float_plan gc (c_m c) (c_n c)"
        "\<forall>ith. ?F ith = Inr (Some (Float_kernel KN gc))"
    unfolding decided_def by auto
  then show ?thesis
  proof cases
    case none
    then have "idle_inv ?fin" by (intro none_pool) simp
    from idle_not_returned[OF this assms(5)] show ?thesis using len assms(4) by simp
  next
    case quant
    then have "mset (written ?fin) = mset (the (Q0_matmul (Q0_of_call c TA TB 0 1) (c_m c) (c_n c)))"
      using assms by (intro quant_pool) simp_all
    then have "mset (map fst (written ?fin))
               = mset (map fst (the (Q0_matmul (Q0_of_call c TA TB 0 1) (c_m c) (c_n c))))"
      by (metis mset_map)
    then show ?thesis
      using quant_single[OF assms(1,2), of c TA TB] mset_eq_setD mset_eq_imp_distinct_iff
      by metis
  next
    case float
    from float_pool[OF assms(4) _ float(3,1) assms(3) float(2) assms(5)] float(4)
    obtain cells where "written ?fin = valued (c_vops c) KN (c_k c) (c_lda c) (c_ldb c) cells"
      "distinct cells" "set cells = {0..<c_m c} \<times> {0..<c_n c}"
      by blast
    then show ?thesis by simp
  qed
qed

text \<open>
  Claim C1.  Take any call with \<open>m, n, k \<ge> 0\<close>, any positive number of workers all invoked on
  it, and any interleaving of their steps after which every worker has returned \<^verbatim>\<open>true\<close>.
  Then the cells \<open>(i, j)\<close> written by the workers together are exactly \<open>[0, m) \<times> [0, n)\<close>, and
  no cell is written twice.  This holds for the floating-point engine with its job counter
  and for the quantised engine with its recursive split of the region.
\<close>

theorem pool_covers_C:
  fixes c :: "('v, 'd, 'f) call"
  assumes "0 \<le> c_m c" "0 \<le> c_n c" "0 \<le> c_k c" "0 < N"
    and "all_returned True (run_pool c sched (init_pool N c0))"
  shows "distinct (map fst (written (run_pool c sched (init_pool N c0))))
       \<and> set (map fst (written (run_pool c sched (init_pool N c0)))) = {0..<c_m c} \<times> {0..<c_n c}"
  by (rule pool_cells[OF assms])

theorem pool_covers_C_witness:
  "distinct (map fst (written (run_pool sample_call [0, 1, 0, 1, 0, 0, 1, 0, 1] (init_pool 2 0))))
   \<and> set (map fst (written (run_pool sample_call [0, 1, 0, 1, 0, 0, 1, 0, 1] (init_pool 2 0))))
       = {0..<4} \<times> {0..<2}"
proof -
  have h: "0 \<le> c_m sample_call" "0 \<le> c_n sample_call" "0 \<le> c_k sample_call" "0 < (2::nat)"
    by (simp_all add: sample_call_def)
  have r: "all_returned True (run_pool sample_call [0, 1, 0, 1, 0, 0, 1, 0, 1] (init_pool 2 0))"
    by code_simp
  have e: "c_m sample_call = 4" "c_n sample_call = 2" by (simp_all add: sample_call_def)
  from pool_covers_C[OF h r] show ?thesis unfolding e .
qed

lemma store_C_Nil: "store_C ldc [] C0 = C0"
  by (simp add: store_C_def)

text \<open>
  Claim C2.  When the entry point returns \<^verbatim>\<open>false\<close> for a worker of a call, then in every
  run of the workers of that call nothing is ever written: \<open>C\<close> after the run is \<open>C\<close> before
  it, and every worker that has returned has returned \<^verbatim>\<open>false\<close>.
\<close>

theorem refused_call_leaves_C:
  fixes c :: "('v, 'd, 'f) call" and C0 :: "int \<Rightarrow> 'f"
  assumes "0 \<le> c_m c"
    and "llamafile_sgemm (c_cf c) ith (int N) (c_m c) (c_n c) (c_k c)
           (c_Atype c) (c_Btype c) (c_Ctype c) = Inr None"
  shows "written (run_pool c sched (init_pool N c0)) = []
       \<and> store_C (c_ldc c) (written (run_pool c sched (init_pool N c0))) C0 = C0
       \<and> (\<forall>x\<in>set (workers (run_pool c sched (init_pool N c0 :: 'f pool))).
             x = Entered \<or> x = Returned False)"
proof -
  let ?F = "\<lambda>ith. llamafile_sgemm (c_cf c) ith (int N) (c_m c) (c_n c) (c_k c)
                  (c_Atype c) (c_Btype c) (c_Ctype c)"
  let ?fin = "run_pool c sched (init_pool N c0 :: 'f pool)"
  from sgemm_decided[OF assms(1), of "c_n c" "c_k c" "c_cf c" "int N" "c_Atype c" "c_Btype c" "c_Ctype c"]
  consider (none) "\<forall>ith. ?F ith = Inr None"
    | (quant) TA TB where "\<forall>ith. ?F ith = Inr (Some (Quant_kernel TA TB))"
    | (float) KN gc where "\<forall>ith. ?F ith = Inr (Some (Float_kernel KN gc))"
    unfolding decided_def by auto
  then have "\<forall>ith. ?F ith = Inr None"
  proof cases
    case none
    then show ?thesis .
  next
    case quant
    then show ?thesis using assms(2) by simp
  next
    case float
    then show ?thesis using assms(2) by simp
  qed
  then have "idle_inv ?fin" by (intro none_pool) simp
  then show ?thesis by (simp add: idle_inv_def store_C_Nil)
qed

theorem refused_call_leaves_C_witness:
  "written (run_pool (sample_call\<lparr>c_k := 7\<rparr>) [0, 1, 1, 0] (init_pool 2 0)) = []
   \<and> store_C 4 (written (run_pool (sample_call\<lparr>c_k := 7\<rparr>) [0, 1, 1, 0] (init_pool 2 0)))
        (\<lambda>a. 5) = (\<lambda>a. 5)
   \<and> workers (run_pool (sample_call\<lparr>c_k := 7\<rparr>) [0, 1, 1, 0] (init_pool 2 0))
       = [Returned False, Returned False]"
proof -
  let ?c = "sample_call\<lparr>c_k := 7\<rparr>"
  have h: "0 \<le> c_m ?c" by (simp add: sample_call_def)
  have f: "llamafile_sgemm (c_cf ?c) 0 (int 2) (c_m ?c) (c_n ?c) (c_k ?c)
             (c_Atype ?c) (c_Btype ?c) (c_Ctype ?c) = Inr None"
    by (simp add: sample_call_def llamafile_sgemm_def sample_cf_def run_tinyBLAS_def
          tinyBLAS_matmul_def bind_err_def)
  have w: "workers (run_pool ?c [0, 1, 1, 0] (init_pool 2 0)) = [Returned False, Returned False]"
    by code_simp
  have l: "c_ldc ?c = 4" by (simp add: sample_call_def)
  from refused_call_leaves_C[OF h f, of "[0, 1, 1, 0]" 0 "\<lambda>a. 5"]
  have "written (run_pool ?c [0, 1, 1, 0] (init_pool 2 0)) = []
   \<and> store_C 4 (written (run_pool ?c [0, 1, 1, 0] (init_pool 2 0))) (\<lambda>a. 5) = (\<lambda>a. 5)"
    unfolding l by (elim conjE) (intro conjI)
  then show ?thesis using w by (intro conjI) (elim conjE, assumption)+
qed

subsection \<open>Thread-count invariance\<close>

lemma same_tag_none: "same_tag (\<lambda>x. Inr None)"
  by (simp add: same_tag_def)

lemma same_tag_quant: "same_tag (\<lambda>x. Inr (Some (Quant_kernel TA TB)))"
  unfolding same_tag_def by (rule exI[of _ "Inr (TA, TB)"]) (simp add: kernel_tag_def)

lemma same_tag_if:
  assumes "c \<Longrightarrow> same_tag F" "\<not> c \<Longrightarrow> same_tag G"
  shows "same_tag (\<lambda>x. if c then F x else G x)"
  using assms by (cases c) simp_all

lemma same_tag_case:
  assumes "same_tag F1" "same_tag F2" "same_tag F3" "same_tag F4"
    "same_tag F5" "same_tag F6" "same_tag F7" "same_tag F8"
  shows "same_tag (\<lambda>x. case t of GGML_TYPE_F32 \<Rightarrow> F1 x | GGML_TYPE_F16 \<Rightarrow> F2 x
           | GGML_TYPE_BF16 \<Rightarrow> F3 x | GGML_TYPE_Q8_0 \<Rightarrow> F4 x | GGML_TYPE_Q4_0 \<Rightarrow> F5 x
           | GGML_TYPE_Q5_0 \<Rightarrow> F6 x | GGML_TYPE_IQ4_NL \<Rightarrow> F7 x | GGML_TYPE_OTHER \<Rightarrow> F8 x)"
  using assms by (cases t) simp_all

lemma same_tag_run: "same_tag (\<lambda>x. run_tinyBLAS cf KN k (fst x) (snd x) m n)"
  unfolding same_tag_def
  by (rule exI[of _ "Inl KN"])
     (auto simp: run_tinyBLAS_def bind_err_def kernel_tag_def split: sum.splits)

text \<open>The engine that the entry point chooses does not depend on the worker or on the
  number of workers.\<close>

lemma sgemm_same_tag:
  "same_tag (\<lambda>x. llamafile_sgemm cf (fst x) (snd x) m n k Atype Btype Ctype)"
  unfolding llamafile_sgemm_def
  by (intro same_tag_if same_tag_case same_tag_none same_tag_quant same_tag_run)

lemma sgemm_tags:
  assumes "llamafile_sgemm cf i1 N1 m n k Atype Btype Ctype = Inr (Some r1)"
    "llamafile_sgemm cf i2 N2 m n k Atype Btype Ctype = Inr (Some r2)"
  shows "kernel_tag r1 = kernel_tag r2"
proof -
  from sgemm_same_tag[of cf m n k Atype Btype Ctype] obtain T where
    T: "\<And>x r. llamafile_sgemm cf (fst x) (snd x) m n k Atype Btype Ctype = Inr (Some r)
            \<Longrightarrow> kernel_tag r = T"
    unfolding same_tag_def by auto
  from T[of "(i1, N1)" r1] T[of "(i2, N2)" r2] assms show ?thesis by simp
qed

text \<open>The contents of \<open>C\<close> after writes to distinct elements do not depend on their order.\<close>

lemma store_C_other:
  assumes "a \<notin> C_index ldc ` fst ` set ws"
  shows "store_C ldc ws C0 a = C0 a"
  using assms unfolding store_C_def
  by (induction ws arbitrary: C0) (auto split: prod.splits)

lemma store_C_lookup:
  assumes "distinct (map (C_index ldc \<circ> fst) ws)" "(c, v) \<in> set ws"
  shows "store_C ldc ws C0 (C_index ldc c) = v"
  using assms
proof (induction ws arbitrary: C0)
  case Nil
  then show ?case by simp
next
  case (Cons x ws)
  obtain c' v' where x: "x = (c', v')" by (cases x) auto
  have step: "store_C ldc (x # ws) C0 = store_C ldc ws (C0(C_index ldc c' := v'))"
    by (simp add: store_C_def x)
  show ?case
  proof (cases "(c, v) \<in> set ws")
    case True
    have "distinct (map (C_index ldc \<circ> fst) ws)"
      using Cons.prems(1) unfolding list.map distinct.simps by blast
    from Cons.IH[OF this True] show ?thesis unfolding step .
  next
    case False
    then have e: "c' = c" "v' = v" using Cons.prems(2) x by auto
    have "C_index ldc c \<notin> C_index ldc ` fst ` set ws"
      using Cons.prems(1) unfolding x e by (auto simp: image_image)
    from store_C_other[OF this] show ?thesis unfolding step e by simp
  qed
qed

lemma store_C_mset:
  assumes "mset ws1 = mset ws2" "distinct (map (C_index ldc \<circ> fst) ws1)"
  shows "store_C ldc ws1 C0 = store_C ldc ws2 C0"
proof
  fix a
  have s: "set ws1 = set ws2" using mset_eq_setD[OF assms(1)] .
  have "mset (map (C_index ldc \<circ> fst) ws1) = mset (map (C_index ldc \<circ> fst) ws2)"
    using assms(1) by (metis mset_map)
  then have d2: "distinct (map (C_index ldc \<circ> fst) ws2)"
    using assms(2) mset_eq_imp_distinct_iff by blast
  show "store_C ldc ws1 C0 a = store_C ldc ws2 C0 a"
  proof (cases "a \<in> C_index ldc ` fst ` set ws1")
    case True
    then obtain c v where cv: "(c, v) \<in> set ws1" "a = C_index ldc c" by force
    then have "(c, v) \<in> set ws2" using s by simp
    from store_C_lookup[OF assms(2) cv(1)] store_C_lookup[OF d2 this]
    show ?thesis unfolding cv(2) by simp
  next
    case False
    then have "a \<notin> C_index ldc ` fst ` set ws2" using s by simp
    from store_C_other[OF False] store_C_other[OF this] show ?thesis by simp
  qed
qed

lemma C_index_inj:
  assumes "m \<le> ldc"
  shows "inj_on (C_index ldc) ({0..<m} \<times> {0..<n})"
proof (rule inj_onI)
  fix x y :: cell
  assume x: "x \<in> {0..<m} \<times> {0..<n}" and y: "y \<in> {0..<m} \<times> {0..<n}"
    and e: "C_index ldc x = C_index ldc y"
  have bx: "0 \<le> fst x" "fst x < ldc" and by': "0 \<le> fst y" "fst y < ldc"
    using x y assms by auto
  have "(ldc * snd x + fst x) div ldc = snd x" using bx by simp
  moreover have "(ldc * snd y + fst y) div ldc = snd y" using by' by simp
  ultimately have s: "snd x = snd y" using e by (simp add: C_index_def)
  then have "fst x = fst y" using e by (simp add: C_index_def)
  then show "x = y" using s by (simp add: prod_eq_iff)
qed

text \<open>What a complete run has written, by the engine that ran.\<close>

lemma pool_writes_kind:
  fixes c :: "('v, 'd, 'f) call"
  assumes "0 \<le> c_m c" "0 \<le> c_n c" "0 \<le> c_k c" "0 < N"
    and r: "all_returned True (run_pool c sched (init_pool N c0))"
  shows "(\<exists>TA TB.
            llamafile_sgemm (c_cf c) 0 (int N) (c_m c) (c_n c) (c_k c)
                  (c_Atype c) (c_Btype c) (c_Ctype c) = Inr (Some (Quant_kernel TA TB))
            \<and> mset (written (run_pool c sched (init_pool N c0)))
                = mset (the (Q0_matmul (Q0_of_call c TA TB 0 1) (c_m c) (c_n c))))
       \<or> (\<exists>KN gc cells.
            llamafile_sgemm (c_cf c) 0 (int N) (c_m c) (c_n c) (c_k c)
                  (c_Atype c) (c_Btype c) (c_Ctype c) = Inr (Some (Float_kernel KN gc))
            \<and> written (run_pool c sched (init_pool N c0))
                = valued (c_vops c) KN (c_k c) (c_lda c) (c_ldb c) cells
            \<and> distinct cells \<and> set cells = {0..<c_m c} \<times> {0..<c_n c})"
proof -
  let ?F = "\<lambda>ith. llamafile_sgemm (c_cf c) ith (int N) (c_m c) (c_n c) (c_k c)
                  (c_Atype c) (c_Btype c) (c_Ctype c)"
  let ?fin = "run_pool c sched (init_pool N c0)"
  have len: "length (workers ?fin) = N" by (simp add: run_pool_length init_pool_def)
  have d: "decided (c_m c) (c_n c) (c_k c) ?F" by (rule sgemm_decided[OF assms(1)])
  show ?thesis
    using d unfolding decided_def
  proof (elim disjE exE conjE)
    assume "\<forall>ith. ?F ith = Inr None"
    then have "idle_inv ?fin" by (intro none_pool) simp
    from idle_not_returned[OF this r] show ?thesis using len assms(4) by simp
  next
    fix TA TB assume q: "\<forall>ith. ?F ith = Inr (Some (Quant_kernel TA TB))"
    have "mset (written ?fin) = mset (the (Q0_matmul (Q0_of_call c TA TB 0 1) (c_m c) (c_n c)))"
      using assms q by (intro quant_pool) simp_all
    then have "?F 0 = Inr (Some (Quant_kernel TA TB))
            \<and> mset (written ?fin) = mset (the (Q0_matmul (Q0_of_call c TA TB 0 1) (c_m c) (c_n c)))"
      using q by simp
    then show ?thesis by (intro disjI1 exI)
  next
    fix KN gc
    assume f: "0 < KN" "c_k c mod KN = 0" "float_plan gc (c_m c) (c_n c)"
      "\<forall>ith. ?F ith = Inr (Some (Float_kernel KN gc))"
    from float_pool[OF assms(4) _ f(3,1) assms(3) f(2) r] f(4)
    obtain cells where "written ?fin = valued (c_vops c) KN (c_k c) (c_lda c) (c_ldb c) cells"
      "distinct cells" "set cells = {0..<c_m c} \<times> {0..<c_n c}"
      by blast
    then have "?F 0 = Inr (Some (Float_kernel KN gc))
            \<and> written ?fin = valued (c_vops c) KN (c_k c) (c_lda c) (c_ldb c) cells
            \<and> distinct cells \<and> set cells = {0..<c_m c} \<times> {0..<c_n c}"
      using f(4) by simp
    then show ?thesis by (intro disjI2 exI)
  qed
qed

text \<open>Two complete runs of a call, with any numbers of workers, write the same values.\<close>

lemma pool_writes_agree:
  fixes c :: "('v, 'd, 'f) call"
  assumes "0 \<le> c_m c" "0 \<le> c_n c" "0 \<le> c_k c" "0 < N1" "0 < N2"
    and r1: "all_returned True (run_pool c sched1 (init_pool N1 a1))"
    and r2: "all_returned True (run_pool c sched2 (init_pool N2 a2))"
  shows "mset (written (run_pool c sched1 (init_pool N1 a1)))
         = mset (written (run_pool c sched2 (init_pool N2 a2)))"
proof -
  let ?f1 = "run_pool c sched1 (init_pool N1 a1)"
  let ?f2 = "run_pool c sched2 (init_pool N2 a2)"
  note k1 = pool_writes_kind[OF assms(1-3) assms(4) r1]
  note k2 = pool_writes_kind[OF assms(1-3) assms(5) r2]
  show ?thesis
    using k1
  proof (elim disjE exE conjE)
    fix TA TB
    assume q1: "llamafile_sgemm (c_cf c) 0 (int N1) (c_m c) (c_n c) (c_k c)
                  (c_Atype c) (c_Btype c) (c_Ctype c) = Inr (Some (Quant_kernel TA TB))"
      and w1: "mset (written ?f1) = mset (the (Q0_matmul (Q0_of_call c TA TB 0 1) (c_m c) (c_n c)))"
    show ?thesis
      using k2
    proof (elim disjE exE conjE)
      fix TA' TB'
      assume q2: "llamafile_sgemm (c_cf c) 0 (int N2) (c_m c) (c_n c) (c_k c)
                  (c_Atype c) (c_Btype c) (c_Ctype c) = Inr (Some (Quant_kernel TA' TB'))"
        and w2: "mset (written ?f2) = mset (the (Q0_matmul (Q0_of_call c TA' TB' 0 1) (c_m c) (c_n c)))"
      have "kernel_tag (Quant_kernel TA TB) = kernel_tag (Quant_kernel TA' TB')"
        by (rule sgemm_tags[OF q1 q2])
      then have "TA' = TA" "TB' = TB" by (simp_all add: kernel_tag_def)
      then show ?thesis using w1 w2 by simp
    next
      fix KN' gc'
      assume f2: "llamafile_sgemm (c_cf c) 0 (int N2) (c_m c) (c_n c) (c_k c)
                  (c_Atype c) (c_Btype c) (c_Ctype c) = Inr (Some (Float_kernel KN' gc'))"
      have "kernel_tag (Quant_kernel TA TB) = kernel_tag (Float_kernel KN' gc')"
        by (rule sgemm_tags[OF q1 f2])
      then show ?thesis by (simp add: kernel_tag_def)
    qed
  next
    fix KN gc cells1
    assume f1: "llamafile_sgemm (c_cf c) 0 (int N1) (c_m c) (c_n c) (c_k c)
                  (c_Atype c) (c_Btype c) (c_Ctype c) = Inr (Some (Float_kernel KN gc))"
      and w1: "written ?f1 = valued (c_vops c) KN (c_k c) (c_lda c) (c_ldb c) cells1"
      and c1: "distinct cells1" "set cells1 = {0..<c_m c} \<times> {0..<c_n c}"
    show ?thesis
      using k2
    proof (elim disjE exE conjE)
      fix TA' TB'
      assume q2: "llamafile_sgemm (c_cf c) 0 (int N2) (c_m c) (c_n c) (c_k c)
                  (c_Atype c) (c_Btype c) (c_Ctype c) = Inr (Some (Quant_kernel TA' TB'))"
      have "kernel_tag (Float_kernel KN gc) = kernel_tag (Quant_kernel TA' TB')"
        by (rule sgemm_tags[OF f1 q2])
      then show ?thesis by (simp add: kernel_tag_def)
    next
      fix KN' gc' cells2
      assume f2: "llamafile_sgemm (c_cf c) 0 (int N2) (c_m c) (c_n c) (c_k c)
                  (c_Atype c) (c_Btype c) (c_Ctype c) = Inr (Some (Float_kernel KN' gc'))"
        and w2: "written ?f2 = valued (c_vops c) KN' (c_k c) (c_lda c) (c_ldb c) cells2"
        and c2: "distinct cells2" "set cells2 = {0..<c_m c} \<times> {0..<c_n c}"
      have "kernel_tag (Float_kernel KN gc) = kernel_tag (Float_kernel KN' gc')"
        by (rule sgemm_tags[OF f1 f2])
      then have e: "KN' = KN" by (simp add: kernel_tag_def)
      have "set cells1 = set cells2" using c1(2) c2(2) by simp
      then have "mset cells1 = mset cells2"
        using c1(1) c2(1) by (simp add: set_eq_iff_mset_eq_distinct)
      then have "mset (map (\<lambda>x. (x, cell_value (c_vops c) KN (c_k c) (c_lda c) (c_ldb c) x)) cells1)
               = mset (map (\<lambda>x. (x, cell_value (c_vops c) KN (c_k c) (c_lda c) (c_ldb c) x)) cells2)"
        by (simp only: mset_map)
      then show ?thesis unfolding w1 w2 e valued_def .
    qed
  qed
qed

text \<open>
  Claim C4.  For fixed operands, shapes and types, two runs of the engine with any positive
  numbers of workers, each run to the return of all its workers with \<^verbatim>\<open>true\<close>, leave the same
  contents in \<open>C\<close>, whatever the order of the workers' steps; the value stored in a cell does
  not depend on the number of workers, although the block multiplier \<open>BM\<close> does.  The
  leading dimension of \<open>C\<close> is at least \<open>m\<close>, as the entry point asserts.
\<close>

theorem thread_count_invariance:
  fixes c :: "('v, 'd, 'f) call" and C0 :: "int \<Rightarrow> 'f"
  assumes "0 \<le> c_m c" "0 \<le> c_n c" "0 \<le> c_k c" "c_m c \<le> c_ldc c" "0 < N1" "0 < N2"
    and "all_returned True (run_pool c sched1 (init_pool N1 a1))"
    and "all_returned True (run_pool c sched2 (init_pool N2 a2))"
  shows "store_C (c_ldc c) (written (run_pool c sched1 (init_pool N1 a1))) C0
         = store_C (c_ldc c) (written (run_pool c sched2 (init_pool N2 a2))) C0"
proof (rule store_C_mset)
  let ?f1 = "run_pool c sched1 (init_pool N1 a1)"
  show "mset (written ?f1) = mset (written (run_pool c sched2 (init_pool N2 a2)))"
    by (rule pool_writes_agree[OF assms(1-3,5-8)])
  from pool_cells[OF assms(1-3,5,7)]
  have d: "distinct (map fst (written ?f1))"
    and s: "set (map fst (written ?f1)) = {0..<c_m c} \<times> {0..<c_n c}"
    by blast+
  have i: "inj_on (C_index (c_ldc c)) (set (map fst (written ?f1)))"
    unfolding s by (rule C_index_inj[OF assms(4)])
  have "distinct (map (C_index (c_ldc c)) (map fst (written ?f1)))"
    by (rule iffD2[OF distinct_map]) (intro conjI d i)
  then show "distinct (map (C_index (c_ldc c) \<circ> fst) (written ?f1))" by (simp only: map_map)
qed

theorem thread_count_invariance_witness:
  "store_C 16 (written (run_pool (sample_call\<lparr>c_m := 16, c_ldc := 16\<rparr>) [0, 0, 0, 0, 0]
                          (init_pool 1 7))) (\<lambda>a. 0)
   = store_C 16 (written (run_pool (sample_call\<lparr>c_m := 16, c_ldc := 16\<rparr>)
                            [0, 1, 0, 1, 0, 1, 0, 1, 0, 1] (init_pool 2 0))) (\<lambda>a. 0)"
proof -
  let ?c = "sample_call\<lparr>c_m := 16, c_ldc := 16\<rparr>"
  have h: "0 \<le> c_m ?c" "0 \<le> c_n ?c" "0 \<le> c_k ?c" "c_m ?c \<le> c_ldc ?c" "0 < (1::nat)" "0 < (2::nat)"
    by (simp_all add: sample_call_def)
  have r1: "all_returned True (run_pool ?c [0, 0, 0, 0, 0] (init_pool 1 7))"
    by code_simp
  have r2: "all_returned True (run_pool ?c [0, 1, 0, 1, 0, 1, 0, 1, 0, 1] (init_pool 2 0))"
    by code_simp
  have l: "c_ldc ?c = 16" by (simp add: sample_call_def)
  from thread_count_invariance[OF h r1 r2, of "\<lambda>a. 0"] show ?thesis unfolding l .
qed

subsection \<open>The floating-point matmul returns, with its job loop\<close>




end
